theory Spec2Isabelle
  imports Complex_Main
begin

section \<open>Machine arithmetic of the kernels\<close>

text \<open>
  The kernels compute on \<open>scalar_t\<close> (float or double), \<open>int16_t\<close>, \<open>uint16_t\<close>, \<open>int\<close> and
  \<open>size_t\<close>.  Scalars are modelled as reals: the splat stage computes on them exactly,
  and the slice stage, whose quotient is in general not a scalar, rounds after each
  operation with a rounding that is a parameter.  Integers are modelled as \<open>int\<close> and
  \<open>nat\<close>, and every store into an \<open>int16_t\<close> cell keeps the low sixteen bits, written out
  as \<open>narrow16\<close>.  Loop counters are \<open>uint16_t\<close>; the loops \<open>for (i = 0; i <= pd; ++i)\<close>
  are modelled by \<open>[0..<pd + 1]\<close>, which is what they run through when \<open>pd < 65535\<close>.
\<close>

definition narrow16 :: "int \<Rightarrow> int" where
  "narrow16 x = (x + 32768) mod 65536 - 32768"

text \<open>\<open>round()\<close> of the C library: the nearest integer, halves away from zero.\<close>

definition c_round :: "real \<Rightarrow> int" where
  "c_round x = (if 0 \<le> x then \<lfloor>x + 1 / 2\<rfloor> else \<lceil>x - 1 / 2\<rceil>)"

text \<open>
  \<open>static_cast<int16_t>\<close> of a floating value is defined only when the value is
  representable; otherwise the behaviour is undefined, which is \<open>None\<close> here.
\<close>

definition cast_int16 :: "int \<Rightarrow> int option" where
  "cast_int16 v = (if - 32768 \<le> v \<and> v \<le> 32767 then Some v else None)"

text \<open>Integer division of C++ truncates toward zero.\<close>

definition c_div :: "int \<Rightarrow> int \<Rightarrow> int" where
  "c_div a b = sgn a * sgn b * (\<bar>a\<bar> div \<bar>b\<bar>)"

section \<open>The canonical offset table\<close>

text \<open>
  The constructor of \<open>PermutohedralLatticeGPU\<close> fills \<open>canonical\<close>, an array of
  \<open>(pd + 1) * (pd + 1)\<close> cells of type \<open>int16_t\<close>, row by row with two inner loops:
  \<^verbatim>\<open>
  for (uint16_t i = 0; i <= pd; ++i) {
    for (uint16_t j = 0; j <= pd - i; ++j)      canonical[i * (pd + 1) + j] = i;
    for (uint16_t j = pd - i + 1; j <= pd; ++j) canonical[i * (pd + 1) + j] = i - (pd + 1);
  }
  \<close>
  Every cell is written, so the contents of the fresh allocation do not matter; the
  model starts from zeros.
\<close>

definition canonical_row :: "nat \<Rightarrow> nat \<Rightarrow> int list \<Rightarrow> int list" where
  "canonical_row pd i c =
     fold (\<lambda>j c. c[i * (pd + 1) + j := narrow16 (int i - (int pd + 1))]) [pd - i + 1..<pd + 1]
       (fold (\<lambda>j c. c[i * (pd + 1) + j := narrow16 (int i)]) [0..<pd - i + 1] c)"

definition canonical_table :: "nat \<Rightarrow> int list" where
  "canonical_table pd =
     fold (canonical_row pd) [0..<pd + 1] (replicate ((pd + 1) * (pd + 1)) 0)"

text \<open>Row \<open>r\<close> of a flat table with \<open>pd + 1\<close> columns.\<close>

definition table_row :: "nat \<Rightarrow> nat \<Rightarrow> int list \<Rightarrow> int list" where
  "table_row pd r c = take (pd + 1) (drop (r * (pd + 1)) c)"

section \<open>A loop whose body can fail\<close>

text \<open>
  Undefined behaviour of the source (a conversion out of range, an access outside an
  array) is the result \<open>None\<close>.  \<open>fold_option\<close> runs a loop body over the values of the
  loop counter and stops at the first failure.
\<close>

fun fold_option :: "('a \<Rightarrow> 's \<Rightarrow> 's option) \<Rightarrow> 'a list \<Rightarrow> 's \<Rightarrow> 's option" where
  "fold_option f [] s = Some s"
| "fold_option f (x # xs) s = (case f x s of None \<Rightarrow> None | Some s' \<Rightarrow> fold_option f xs s')"

section \<open>The scale factors\<close>

text \<open>
  \<^verbatim>\<open>
  scalar_t invStdDev = (pd + 1) * sqrt(2.0f / 3);
  for (uint16_t i = 0; i < pd; ++i)
    scaleFactor[i] = invStdDev / ((scalar_t) sqrt((i + 1) * (i + 2)));
  \<close>
\<close>

definition scaleFactor_table :: "nat \<Rightarrow> real list" where
  "scaleFactor_table pd =
     fold (\<lambda>i s. s[i := real (pd + 1) * sqrt (2 / 3) / sqrt (real ((i + 1) * (i + 2)))])
       [0..<pd] (replicate pd 0)"

section \<open>The lattice geometry of one point (\<open>splat_kernel\<close>, first half)\<close>

text \<open>
  Thread \<open>n\<close> of \<open>splat_kernel\<close> works on row \<open>n\<close> of the scratch matrices \<open>matE\<close>
  (\<open>elevated\<close>, \<open>pd + 1\<close> scalars), \<open>matY\<close> (\<open>y\<close>, \<open>pd + 1\<close> cells of \<open>int16_t\<close>), \<open>matR\<close>
  (\<open>rank\<close>, \<open>pd + 1\<close> cells of \<open>int16_t\<close>) and \<open>matB\<close> (\<open>bary\<close>, \<open>pd + 2\<close> scalars), all
  allocated by \<open>torch::zeros\<close>.
\<close>

record lattice_point =
  matE :: "real list"
  matY :: "int list"
  matR :: "int list"
  matB :: "real list"

definition zero_point :: "nat \<Rightarrow> lattice_point" where
  "zero_point pd =
     \<lparr>matE = replicate (pd + 1) 0, matY = replicate (pd + 1) 0,
      matR = replicate (pd + 1) 0, matB = replicate (pd + 2) 0\<rparr>"

text \<open>
  \<^verbatim>\<open>
  elevated[pd] = - pd * pos[pd - 1] * scaleFactor[pd - 1];
  for (uint16_t i = pd - 1; i > 0; i--)
    elevated[i] = elevated[i + 1] - i * pos[i - 1] * scaleFactor[i - 1]
                  + (i + 2) * pos[i] * scaleFactor[i];
  elevated[0] = elevated[1] + 2.0 * pos[0] * scaleFactor[0];
  \<close>
  The argument of \<open>elevate_loop\<close> is the loop counter \<open>i\<close>, counting down to \<open>1\<close>.
\<close>

fun elevate_loop :: "nat \<Rightarrow> real list \<Rightarrow> real list \<Rightarrow> real list \<Rightarrow> real list" where
  "elevate_loop 0 pos sf e = e"
| "elevate_loop (Suc k) pos sf e =
     elevate_loop k pos sf
       (e[Suc k := e ! (Suc k + 1) - real (Suc k) * pos ! k * sf ! k
                     + real (Suc k + 2) * pos ! Suc k * sf ! Suc k])"

definition elevate :: "nat \<Rightarrow> real list \<Rightarrow> real list \<Rightarrow> real list \<Rightarrow> real list" where
  "elevate pd pos sf e =
     (let e1 = e[pd := - real pd * pos ! (pd - 1) * sf ! (pd - 1)];
          e2 = elevate_loop (pd - 1) pos sf e1
      in e2[0 := e2 ! 1 + 2 * pos ! 0 * sf ! 0])"

text \<open>
  \<^verbatim>\<open>
  int16_t h = 0;
  for (uint16_t i = 0; i <= pd; ++i) {
    y[i] = static_cast<int16_t>(round(elevated[i] / (pd + 1))) * (pd + 1);
    h += y[i];
    rank[i] = 0;
    bary[i] = 0.0;
  }
  h /= (pd + 1);
  bary[pd + 1] = 0.0;
  \<close>
  The state of the loop is the point's rows together with \<open>h\<close>.
\<close>

definition round_step :: "nat \<Rightarrow> nat \<Rightarrow> lattice_point \<times> int \<Rightarrow> (lattice_point \<times> int) option" where
  "round_step pd i s =
     (case cast_int16 (c_round (matE (fst s) ! i / real (pd + 1))) of
        None \<Rightarrow> None
      | Some c \<Rightarrow>
          Some ((fst s)\<lparr>matY := (matY (fst s))[i := narrow16 (c * int (pd + 1))],
                        matR := (matR (fst s))[i := 0],
                        matB := (matB (fst s))[i := 0]\<rparr>,
                narrow16 (snd s + narrow16 (c * int (pd + 1)))))"

definition round_stage :: "nat \<Rightarrow> lattice_point \<Rightarrow> (lattice_point \<times> int) option" where
  "round_stage pd p =
     (case fold_option (round_step pd) [0..<pd + 1] (p, 0) of
        None \<Rightarrow> None
      | Some s \<Rightarrow>
          Some ((fst s)\<lparr>matB := (matB (fst s))[pd + 1 := 0]\<rparr>,
                narrow16 (c_div (snd s) (int (pd + 1)))))"

text \<open>
  \<^verbatim>\<open>
  for (uint16_t i = 0; i < pd; ++i)
    for (uint16_t j = i + 1; j <= pd; ++j)
      if (elevated[i] - y[i] < elevated[j] - y[j]) rank[i]++; else rank[j]++;
  \<close>
\<close>

definition remainder :: "lattice_point \<Rightarrow> nat \<Rightarrow> real" where
  "remainder p i = matE p ! i - real_of_int (matY p ! i)"

definition rank_pair :: "nat \<Rightarrow> nat \<Rightarrow> lattice_point \<Rightarrow> lattice_point" where
  "rank_pair i j p =
     (if remainder p i < remainder p j
      then p\<lparr>matR := (matR p)[i := narrow16 (matR p ! i + 1)]\<rparr>
      else p\<lparr>matR := (matR p)[j := narrow16 (matR p ! j + 1)]\<rparr>)"

definition rank_stage :: "nat \<Rightarrow> lattice_point \<Rightarrow> lattice_point" where
  "rank_stage pd p = fold (\<lambda>i. fold (rank_pair i) [i + 1..<pd + 1]) [0..<pd] p"

text \<open>
  \<^verbatim>\<open>
  if (h > 0) {
    for (uint16_t i = 0; i <= pd; ++i) {
      if (rank[i] >= pd + 1 - h) { y[i] -= pd + 1; rank[i] += h - (pd + 1); }
      else { rank[i] += h; }
    }
  } else if (h < 0) {
    for (uint16_t i = 0; i <= pd; ++i) {
      if (rank[i] < -h) { y[i] += pd + 1; rank[i] += h + (pd + 1); }
      else { rank[i] += h; }
    }
  }
  \<close>
\<close>

definition shift_pos :: "nat \<Rightarrow> int \<Rightarrow> nat \<Rightarrow> lattice_point \<Rightarrow> lattice_point" where
  "shift_pos pd h i p =
     (if int (pd + 1) - h \<le> matR p ! i
      then p\<lparr>matY := (matY p)[i := narrow16 (matY p ! i - int (pd + 1))],
              matR := (matR p)[i := narrow16 (matR p ! i + (h - int (pd + 1)))]\<rparr>
      else p\<lparr>matR := (matR p)[i := narrow16 (matR p ! i + h)]\<rparr>)"

definition shift_neg :: "nat \<Rightarrow> int \<Rightarrow> nat \<Rightarrow> lattice_point \<Rightarrow> lattice_point" where
  "shift_neg pd h i p =
     (if matR p ! i < - h
      then p\<lparr>matY := (matY p)[i := narrow16 (matY p ! i + int (pd + 1))],
              matR := (matR p)[i := narrow16 (matR p ! i + (h + int (pd + 1)))]\<rparr>
      else p\<lparr>matR := (matR p)[i := narrow16 (matR p ! i + h)]\<rparr>)"

definition correct_stage :: "nat \<Rightarrow> int \<Rightarrow> lattice_point \<Rightarrow> lattice_point" where
  "correct_stage pd h p =
     (if 0 < h then fold (shift_pos pd h) [0..<pd + 1] p
      else if h < 0 then fold (shift_neg pd h) [0..<pd + 1] p
      else p)"

text \<open>
  \<^verbatim>\<open>
  for (uint16_t i = 0; i <= pd; ++i) {
    scalar_t delta = static_cast<scalar_t>(elevated[i] - y[i]) / (pd + 1);
    bary[pd - rank[i]] += delta;
    bary[pd + 1 - rank[i]] -= delta;
  }
  bary[0] += 1.0 + bary[pd + 1];
  \<close>
  \<open>bary\<close> has \<open>pd + 2\<close> cells; an index outside \<open>0..pd + 1\<close> is an access outside the row.
\<close>

definition bary_step :: "nat \<Rightarrow> nat \<Rightarrow> lattice_point \<Rightarrow> lattice_point option" where
  "bary_step pd i p =
     (let delta = remainder p i / real (pd + 1);
          a = int pd - matR p ! i;
          b = int pd + 1 - matR p ! i
      in if 0 \<le> a \<and> b \<le> int pd + 1
         then let b1 = (matB p)[nat a := matB p ! nat a + delta]
              in Some (p\<lparr>matB := b1[nat b := b1 ! nat b - delta]\<rparr>)
         else None)"

definition bary_stage :: "nat \<Rightarrow> lattice_point \<Rightarrow> lattice_point option" where
  "bary_stage pd p =
     (case fold_option (bary_step pd) [0..<pd + 1] p of
        None \<Rightarrow> None
      | Some q \<Rightarrow> Some (q\<lparr>matB := (matB q)[0 := matB q ! 0 + (1 + matB q ! (pd + 1))]\<rparr>))"

text \<open>
  The geometry of one point: lines 401 to 456 of the kernel in order.  \<open>pos\<close> is row \<open>n\<close>
  of \<open>ref\<close> and \<open>pd = ref.size(1)\<close> its length; with \<open>pd = 0\<close> the first statement reads
  \<open>pos[-1]\<close>.
\<close>

definition ranked_point :: "nat \<Rightarrow> real list \<Rightarrow> real list \<Rightarrow> (lattice_point \<times> int) option" where
  "ranked_point pd pos sf =
     (if pd = 0 then None
      else case round_stage pd ((zero_point pd)\<lparr>matE := elevate pd pos sf (replicate (pd + 1) 0)\<rparr>) of
             None \<Rightarrow> None
           | Some s \<Rightarrow> Some (rank_stage pd (fst s), snd s))"

definition corrected_point :: "nat \<Rightarrow> real list \<Rightarrow> real list \<Rightarrow> lattice_point option" where
  "corrected_point pd pos sf =
     (case ranked_point pd pos sf of
        None \<Rightarrow> None
      | Some s \<Rightarrow> Some (correct_stage pd (snd s) (fst s)))"

definition splat_geometry :: "nat \<Rightarrow> real list \<Rightarrow> real list \<Rightarrow> lattice_point option" where
  "splat_geometry pd pos sf =
     (case corrected_point pd pos sf of
        None \<Rightarrow> None
      | Some p \<Rightarrow> bary_stage pd p)"

text \<open>
  \<^verbatim>\<open>
  for (uint16_t i = 0; i < pd; ++i)
    key[i] = y[i] + canonical[r * (pd + 1) + rank[i]];
  \<close>
\<close>

definition corner_key :: "nat \<Rightarrow> int list \<Rightarrow> lattice_point \<Rightarrow> nat \<Rightarrow> int list" where
  "corner_key pd canonical p r =
     map (\<lambda>i. narrow16 (matY p ! i + canonical ! (r * (pd + 1) + nat (matR p ! i)))) [0..<pd]"

section \<open>The hash table (\<open>HashTableGPU\<close>)\<close>

text \<open>
  The table owns three arrays: \<open>keys\<close> (\<open>capacity * pd\<close> cells of \<open>int16_t\<close>), \<open>values\<close>
  (\<open>capacity * vd\<close> scalars, zeroed) and \<open>entry2nid\<close> (\<open>capacity\<close> cells of \<open>int\<close>, set to
  \<open>-1\<close>).  A bucket of \<open>entry2nid\<close> holds \<open>-1\<close> (empty), \<open>-2\<close> (being claimed) or the
  slot index of its owner.  \<open>keys\<close> is not initialised by the constructor; a slot of it is
  read only through a bucket published after the slot was written, and the model starts
  it from zeros.
\<close>

record hash_table =
  ht_pd :: nat
  ht_vd :: nat
  ht_N :: nat
  capacity :: nat
  keys :: "int list"
  vals :: "real list"
  entry2nid :: "int list"

definition HashTableGPU :: "nat \<Rightarrow> nat \<Rightarrow> nat \<Rightarrow> hash_table" where
  "HashTableGPU pd vd N =
     \<lparr>ht_pd = pd, ht_vd = vd, ht_N = N, capacity = N * (pd + 1),
      keys = replicate (N * (pd + 1) * pd) 0,
      vals = replicate (N * (pd + 1) * vd) 0,
      entry2nid = replicate (N * (pd + 1)) (- 1)\<rparr>"

text \<open>
  \<^verbatim>\<open>
  size_t k = 0;
  for (uint16_t i = 0; i < pd; ++i) { k += static_cast<size_t>(key[i]); k *= 2531011; }
  \<close>
  \<open>size_t\<close> has 64 bits; the conversion of a negative \<open>int16_t\<close> and both operations wrap.
\<close>

definition hash :: "nat \<Rightarrow> int list \<Rightarrow> nat" where
  "hash pd key =
     fold (\<lambda>i k. ((k + nat (key ! i mod 2 ^ 64)) mod 2 ^ 64 * 2531011) mod 2 ^ 64) [0..<pd] 0"

text \<open>
  \<^verbatim>\<open>
  bool match = true;
  for (uint16_t i = 0; i < pd && match; ++i) match = keys[cas * pd + i] == key[i];
  \<close>
\<close>

definition key_match :: "nat \<Rightarrow> int list \<Rightarrow> int \<Rightarrow> int list \<Rightarrow> bool" where
  "key_match pd ks cas key = list_all (\<lambda>i. ks ! (nat cas * pd + i) = key ! i) [0..<pd]"

text \<open>\<^verbatim>\<open>for (uint16_t i = 0; i < pd; ++i) keys[nid * pd + i] = key[i];\<close>\<close>

definition write_key :: "nat \<Rightarrow> int list \<Rightarrow> nat \<Rightarrow> int list \<Rightarrow> int list" where
  "write_key pd key nid ks = fold (\<lambda>i ks. ks[nid * pd + i := key ! i]) [0..<pd] ks"

text \<open>Linear probing: \<^verbatim>\<open>++h; if (h == capacity) h = 0;\<close>\<close>

definition next_bucket :: "nat \<Rightarrow> nat \<Rightarrow> nat" where
  "next_bucket cap h = (if h + 1 = cap then 0 else h + 1)"

text \<open>
  \<open>insert\<close> run by one thread with no other thread active: the \<open>while (true)\<close> loop from
  bucket \<open>h\<close>.  The compare-and-swap that finds \<open>-1\<close>, the write of the key and the exchange
  that publishes \<open>nid\<close> then happen without interference, and leave \<open>nid\<close> in the bucket.
  The loop need not end, so the function is partial.
\<close>

partial_function (option) insert_loop ::
  "hash_table \<Rightarrow> int list \<Rightarrow> nat \<Rightarrow> nat \<Rightarrow> (hash_table \<times> nat) option" where
  "insert_loop t key nid h =
     (if entry2nid t ! h = - 2 then insert_loop t key nid (next_bucket (capacity t) h)
      else if entry2nid t ! h = - 1 then
        Some (t\<lparr>keys := write_key (ht_pd t) key nid (keys t),
                 entry2nid := (entry2nid t)[h := int nid]\<rparr>, h)
      else if key_match (ht_pd t) (keys t) (entry2nid t ! h) key then Some (t, h)
      else insert_loop t key nid (next_bucket (capacity t) h))"

declare insert_loop.simps [code]

text \<open>
  \<^verbatim>\<open>size_t h = hash(key) % capacity;\<close> and the loop.  With \<open>capacity = 0\<close> the remainder is
  undefined.
\<close>

definition insert_ht :: "hash_table \<Rightarrow> int list \<Rightarrow> nat \<Rightarrow> (hash_table \<times> nat) option" where
  "insert_ht t key nid =
     (if capacity t = 0 then None
      else insert_loop t key nid (hash (ht_pd t) key mod capacity t))"

text \<open>The same loop cut off after \<open>n\<close> probed buckets.\<close>

fun insert_fuel ::
  "nat \<Rightarrow> hash_table \<Rightarrow> int list \<Rightarrow> nat \<Rightarrow> nat \<Rightarrow> (hash_table \<times> nat) option" where
  "insert_fuel 0 t key nid h = None"
| "insert_fuel (Suc n) t key nid h =
     (if entry2nid t ! h = - 2 then insert_fuel n t key nid (next_bucket (capacity t) h)
      else if entry2nid t ! h = - 1 then
        Some (t\<lparr>keys := write_key (ht_pd t) key nid (keys t),
                 entry2nid := (entry2nid t)[h := int nid]\<rparr>, h)
      else if key_match (ht_pd t) (keys t) (entry2nid t ! h) key then Some (t, h)
      else insert_fuel n t key nid (next_bucket (capacity t) h))"

text \<open>
  \<^verbatim>\<open>scalar_t* lookupValue(size_t h) { return &values[entry2nid[h] * vd]; }\<close>
  The result is the offset of the slot in \<open>values\<close>; it is \<open>None\<close> when the bucket lies
  outside \<open>entry2nid\<close> or holds no slot index, when the product, which is computed in
  \<open>int\<close>, reaches \<open>2^31\<close>, or when the slot lies outside \<open>values\<close>.
\<close>

definition lookupValue :: "hash_table \<Rightarrow> nat \<Rightarrow> nat option" where
  "lookupValue t h =
     (if h < length (entry2nid t) \<and> 0 \<le> entry2nid t ! h
         \<and> entry2nid t ! h * int (ht_vd t) < 2 ^ 31
         \<and> nat (entry2nid t ! h) * ht_vd t + ht_vd t \<le> length (vals t)
      then Some (nat (entry2nid t ! h) * ht_vd t)
      else None)"

text \<open>
  \<^verbatim>\<open>~HashTableGPU() { cudaFree(keys); cudaFree(values); cudaFree(entry2nid); }\<close>
  After the destructor none of the three arrays has a cell that may be accessed: they
  are the empty list.  The fields \<open>pd\<close>, \<open>vd\<close>, \<open>N\<close> and \<open>capacity\<close> of the object are not
  touched.
\<close>

definition HashTableGPU_destructor :: "hash_table \<Rightarrow> hash_table" where
  "HashTableGPU_destructor t = t\<lparr>keys := [], vals := [], entry2nid := []\<rparr>"

section \<open>The splat stage\<close>

record replay_entry =
  entry :: nat
  weight :: real

text \<open>\<^verbatim>\<open>for (uint16_t i = 0; i < vd; ++i) gpuAtomicAdd(&val[i], bary[r] * value[i]);\<close>\<close>

definition atomic_add_row :: "nat \<Rightarrow> nat \<Rightarrow> real \<Rightarrow> real list \<Rightarrow> real list \<Rightarrow> real list" where
  "atomic_add_row vd base w val vs =
     fold (\<lambda>i vs. vs[base + i := vs ! (base + i) + w * val ! i]) [0..<vd] vs"

text \<open>
  One iteration \<open>r\<close> of the corner loop of thread \<open>n\<close> (lines 458 to 480), on the table and
  the replay buffer:
  \<^verbatim>\<open>
  size_t nid = n * (pd + 1) + r;
  for (...) key[i] = y[i] + canonical[r * (pd + 1) + rank[i]];
  size_t h = table.insert(key, nid);
  replay[nid].entry = h;
  replay[nid].weight = bary[r];
  scalar_t* val = table.lookupValue(h);
  for (...) gpuAtomicAdd(&val[i], bary[r] * value[i]);
  \<close>
\<close>

definition splat_corner ::
  "nat \<Rightarrow> nat \<Rightarrow> int list \<Rightarrow> lattice_point \<Rightarrow> real list \<Rightarrow> nat \<Rightarrow> nat \<Rightarrow>
   hash_table \<times> replay_entry list \<Rightarrow> (hash_table \<times> replay_entry list) option" where
  "splat_corner pd vd canonical p val n r s =
     (if length (snd s) \<le> n * (pd + 1) + r then None
      else case insert_ht (fst s) (corner_key pd canonical p r) (n * (pd + 1) + r) of
        None \<Rightarrow> None
      | Some th \<Rightarrow>
          (case lookupValue (fst th) (snd th) of
             None \<Rightarrow> None
           | Some base \<Rightarrow>
               Some ((fst th)\<lparr>vals := atomic_add_row vd base (matB p ! r) val (vals (fst th))\<rparr>,
                     (snd s)[n * (pd + 1) + r := \<lparr>entry = snd th, weight = matB p ! r\<rparr>])))"

text \<open>
  Thread \<open>n\<close> of \<open>splat_kernel\<close>: it returns at once when \<open>n >= ref.size(0)\<close>; \<open>pd\<close> and \<open>vd\<close>
  are the row lengths of \<open>ref\<close> and \<open>src\<close>.
\<close>

definition splat_kernel ::
  "real list \<Rightarrow> int list \<Rightarrow> real list list \<Rightarrow> real list list \<Rightarrow> nat \<Rightarrow>
   hash_table \<times> replay_entry list \<Rightarrow> (hash_table \<times> replay_entry list) option" where
  "splat_kernel scaleFactor canonical src ref n s =
     (if length ref \<le> n then Some s
      else if length src \<le> n then None
      else case splat_geometry (length (ref ! n) mod 65536) (ref ! n) scaleFactor of
             None \<Rightarrow> None
           | Some p \<Rightarrow>
               fold_option
                 (splat_corner (length (ref ! n) mod 65536) (length (src ! n) mod 65536)
                    canonical p (src ! n) n)
                 [0..<length (ref ! n) mod 65536 + 1] s)"

section \<open>The slice stage\<close>

text \<open>
  One iteration \<open>r\<close> of thread \<open>n\<close> of \<open>slice_kernel\<close>, on the output row:
  \<^verbatim>\<open>
  size_t nid = n * (pd + 1) + r;
  scalar_t* val = table.lookupValue(replay[nid].entry);
  for (uint16_t j = 0; j < vd; ++j)
    out[j] += replay[nid].weight * val[j] / (1 + powf(2, -pd));
  \<close>
  The divisor is computed in single precision whatever \<open>scalar_t\<close> is: \<open>powf\<close> returns a
  \<open>float\<close>, taken to be the power of two itself, and the sum with \<open>1\<close> is rounded to the 24
  bits of a \<open>float\<close>.  Up to \<open>pd = 23\<close> the sum is representable; from \<open>pd = 24\<close> on it rounds
  to \<open>1\<close>.
\<close>

definition slice_divisor :: "nat \<Rightarrow> real" where
  "slice_divisor pd = (if pd < 24 then 1 + 1 / 2 ^ pd else 1)"

text \<open>
  The product, the quotient and the sum are operations on \<open>scalar_t\<close>; \<open>rnd\<close> is the
  rounding of a real to \<open>scalar_t\<close>, applied after each of them.  The row \<open>out\<close> has the
  length of a row of \<open>src\<close>; a channel beyond it is an access outside the row.
\<close>

definition slice_corner ::
  "(real \<Rightarrow> real) \<Rightarrow> hash_table \<Rightarrow> replay_entry list \<Rightarrow> nat \<Rightarrow> nat \<Rightarrow> real list \<Rightarrow>
   real list option" where
  "slice_corner rnd t rp n r out =
     (if length rp \<le> n * (ht_pd t + 1) + r then None
      else if length out < ht_vd t then None
      else case lookupValue t (entry (rp ! (n * (ht_pd t + 1) + r))) of
        None \<Rightarrow> None
      | Some base \<Rightarrow>
          Some (fold (\<lambda>j out. out[j := rnd (out ! j
                    + rnd (rnd (weight (rp ! (n * (ht_pd t + 1) + r)) * vals t ! (base + j))
                            / slice_divisor (ht_pd t)))])
                  [0..<ht_vd t] out))"

definition slice_kernel ::
  "(real \<Rightarrow> real) \<Rightarrow> hash_table \<Rightarrow> replay_entry list \<Rightarrow> nat \<Rightarrow> real list list \<Rightarrow>
   real list list option" where
  "slice_kernel rnd t rp n result =
     (if ht_N t \<le> n then Some result
      else if length result \<le> n then None
      else case fold_option (slice_corner rnd t rp n) [0..<ht_pd t + 1] (result ! n) of
             None \<Rightarrow> None
           | Some out \<Rightarrow> Some (result[n := out]))"

section \<open>The lattice (\<open>PermutohedralLatticeGPU\<close>)\<close>

record lattice =
  lat_pd :: nat
  lat_vd :: nat
  lat_N :: nat
  scaleFactor :: "real list"
  canonical :: "int list"
  hashTable :: hash_table
  replay :: "replay_entry list"

text \<open>
  The constructor.  \<open>replay\<close> is allocated with \<open>N * (pd + 1)\<close> entries and not initialised;
  the model starts it from zero entries.
\<close>

definition PermutohedralLatticeGPU :: "nat \<Rightarrow> nat \<Rightarrow> nat \<Rightarrow> lattice" where
  "PermutohedralLatticeGPU pd vd N =
     \<lparr>lat_pd = pd, lat_vd = vd, lat_N = N,
      scaleFactor = scaleFactor_table pd,
      canonical = canonical_table pd,
      hashTable = HashTableGPU pd vd N,
      replay = replicate (N * (pd + 1)) \<lparr>entry = 0, weight = 0\<rparr>\<rparr>"

text \<open>
  A kernel is launched on \<open>(N + BLOCK_SIZE - 1) / BLOCK_SIZE\<close> blocks of \<open>BLOCK_SIZE = 1024\<close>
  threads.  The threads of one launch run concurrently; \<open>splat_launch\<close> and \<open>slice\<close> below
  are the schedule in which they run one after the other in the order of their index.
\<close>

definition launch_threads :: "nat \<Rightarrow> nat list" where
  "launch_threads N = [0..<(N + 1024 - 1) div 1024 * 1024]"

text \<open>The kernel launched by \<open>splat\<close>, run to its end on the table and the replay buffer.\<close>

definition splat_launch ::
  "lattice \<Rightarrow> real list list \<Rightarrow> real list list \<Rightarrow> (hash_table \<times> replay_entry list) option" where
  "splat_launch L src ref =
     fold_option (splat_kernel (scaleFactor L) (canonical L) src ref)
       (launch_threads (lat_N L)) (hashTable L, replay L)"

text \<open>
  \<open>splat\<close>: the launch statement passes \<open>hashTable\<close> to the parameter
  \<open>HashTableGPU<scalar_t> table\<close> of the kernel by value.  The copy shares the three arrays
  with the member, and it is destroyed at the end of the statement, so its destructor
  frees them.  The model lets the kernel finish first; what \<open>splat\<close> leaves to the rest of
  \<open>filter\<close> is the table after the destructor.
\<close>

definition splat ::
  "lattice \<Rightarrow> real list list \<Rightarrow> real list list \<Rightarrow> (hash_table \<times> replay_entry list) option" where
  "splat L src ref =
     (case splat_launch L src ref of
        None \<Rightarrow> None
      | Some s \<Rightarrow> Some (HashTableGPU_destructor (fst s), snd s))"

text \<open>
  \<open>slice\<close>: the result starts as \<open>torch::zeros_like(src)\<close>.  The table is again passed by
  value; the destructor of that copy runs after the kernel and does not touch the
  result.
\<close>

definition slice ::
  "(real \<Rightarrow> real) \<Rightarrow> lattice \<Rightarrow> hash_table \<times> replay_entry list \<Rightarrow> real list list \<Rightarrow>
   real list list option" where
  "slice rnd L s src =
     fold_option (slice_kernel rnd (fst s) (snd s)) (launch_threads (lat_N L))
       (map (map (\<lambda>x. 0)) src)"

text \<open>
  \<open>filter\<close>: splat, synchronise, slice, synchronise.  The blur between the two is a
  \<open>TODO\<close> of the source.  The slice stage gets the table that \<open>splat\<close> left.
\<close>

definition filter_lattice ::
  "(real \<Rightarrow> real) \<Rightarrow> lattice \<Rightarrow> real list list \<Rightarrow> real list list \<Rightarrow> real list list option" where
  "filter_lattice rnd L src ref =
     (case splat L src ref of
        None \<Rightarrow> None
      | Some s \<Rightarrow> slice rnd L s src)"

text \<open>
  The entry point builds the lattice from \<open>ref.size(-1)\<close>, \<open>src.size(-1)\<close> and
  \<open>src.size(0)\<close>; the first two are passed as \<open>uint16_t\<close>.  A tensor is the list of its rows.
\<close>

definition row_size :: "real list list \<Rightarrow> nat" where
  "row_size x = (case x of [] \<Rightarrow> 0 | r # rs \<Rightarrow> length r)"

definition permutohedral_cuda_filter ::
  "(real \<Rightarrow> real) \<Rightarrow> real list list \<Rightarrow> real list list \<Rightarrow> real list list option" where
  "permutohedral_cuda_filter rnd src ref =
     filter_lattice rnd
       (PermutohedralLatticeGPU (row_size ref mod 65536) (row_size src mod 65536) (length src))
       src ref"

text \<open>
  A rounding for concrete runs: the nearest multiple of \<open>2^-24\<close>.  Between \<open>1/2\<close> and \<open>1\<close>
  the single-precision numbers are these multiples.
\<close>

definition round24 :: "real \<Rightarrow> real" where
  "round24 x = real_of_int \<lfloor>x * 16777216 + 1 / 2\<rfloor> / 16777216"

section \<open>The lookup-based table of \<open>permutohedral_cuda_kernel.cu\<close>\<close>

text \<open>
  The file \<open>src/permutohedral/permutohedral_cuda_kernel.cu\<close> holds another
  \<open>HashTableGPU\<close>: next to \<open>keys\<close> and \<open>values\<close> it owns the counter \<open>filled\<close>, the array
  \<open>entryIdx\<close> (one \<open>int\<close> per bucket, set to \<open>-1\<close>) and the spin lock \<open>slotLock\<close>.  The
  counter and the lock are allocations of one \<open>int\<close> each, hence lists of one cell.
\<close>

record hash_table_cu =
  cu_pd :: nat
  cu_vd :: nat
  cu_N :: nat
  cu_capacity :: nat
  cu_keys :: "int list"
  cu_values :: "real list"
  filled :: "int list"
  entryIdx :: "int list"
  slotLock :: "int list"

definition HashTableGPU_cu :: "nat \<Rightarrow> nat \<Rightarrow> nat \<Rightarrow> hash_table_cu" where
  "HashTableGPU_cu pd vd N =
     \<lparr>cu_pd = pd, cu_vd = vd, cu_N = N, cu_capacity = N * (pd + 1),
      cu_keys = replicate (N * (pd + 1) * pd) 0,
      cu_values = replicate (N * (pd + 1) * vd) 0,
      filled = [0],
      entryIdx = replicate (N * (pd + 1)) (- 1),
      slotLock = [0]\<rparr>"

text \<open>
  \<^verbatim>\<open>
  ~HashTableGPU() {
    cudaFree(keys); cudaFree(values); cudaFree(filled); cudaFree(entryIdx); cudaFree(slotLock);
  }
  \<close>
  A freed allocation has no cell that may be accessed.
\<close>

definition HashTableGPU_cu_destructor :: "hash_table_cu \<Rightarrow> hash_table_cu" where
  "HashTableGPU_cu_destructor t =
     t\<lparr>cu_keys := [], cu_values := [], filled := [], entryIdx := [], slotLock := []\<rparr>"

text \<open>\<^verbatim>\<open>size_t size() { return *filled; }\<close>\<close>

definition size_cu :: "hash_table_cu \<Rightarrow> nat option" where
  "size_cu t = (case filled t of [f] \<Rightarrow> Some (nat (f mod 2 ^ 64)) | _ \<Rightarrow> None)"

text \<open>
  \<^verbatim>\<open>
  while (true) {
    int cas = atomicCAS(slotLock, 0, 1);
    if (cas == 0) { int slot = *filled; *filled += 1; atomicExch(slotLock, 0); return slot; }
  }
  \<close>
  Run by one thread with no other thread active: a free lock is taken and released; a
  lock that is held is never released, and the loop does not return (\<open>None\<close>).  The
  increment of the \<open>int\<close> counter is undefined at \<open>2^31 - 1\<close>.
\<close>

definition next_free_slot :: "hash_table_cu \<Rightarrow> (int \<times> hash_table_cu) option" where
  "next_free_slot t =
     (case (slotLock t, filled t) of
        ([l], [f]) \<Rightarrow>
          if l = 0 \<and> f < 2147483647 then Some (f, t\<lparr>filled := [f + 1]\<rparr>) else None
      | _ \<Rightarrow> None)"

text \<open>
  \<open>lookup(key, create)\<close> from bucket \<open>h\<close>, run by one thread with no other thread active.
  The result is the table and the offset of the slot in \<open>values\<close>, or no offset for
  \<open>nullptr\<close>.
  \<^verbatim>\<open>
  while (true) {
    int cas = atomicCAS(&entryIdx[h], -1, -2);
    if (cas == -2) { }
    else if (cas == -1) {
      if (!create) { atomicExch(&entryIdx[h], -1); return nullptr; }
      int slot = next_free_slot();
      for (uint16_t i = 0; i < pd; ++i) keys[slot * pd + i] = key[i];
      atomicExch(&entryIdx[h], slot);
      return &values[slot * vd];
    } else {
      int slot = entryIdx[h];
      bool match = true;
      for (uint16_t i = 0; i < pd && match; ++i) match = keys[slot * pd + i] == key[i];
      if (match) return &values[slot * vd];
    }
    ++h; if (h == capacity) h = 0;
  }
  \<close>
\<close>

partial_function (option) lookup_loop ::
  "hash_table_cu \<Rightarrow> int list \<Rightarrow> bool \<Rightarrow> nat \<Rightarrow> (hash_table_cu \<times> nat option) option" where
  "lookup_loop t key create h =
     (if entryIdx t ! h = - 2 then lookup_loop t key create (next_bucket (cu_capacity t) h)
      else if entryIdx t ! h = - 1 then
        (if \<not> create then Some (t, None)
         else case next_free_slot t of
                None \<Rightarrow> None
              | Some st \<Rightarrow>
                  Some ((snd st)\<lparr>cu_keys := write_key (cu_pd t) key (nat (fst st)) (cu_keys t),
                                  entryIdx := (entryIdx t)[h := fst st]\<rparr>,
                        Some (nat (fst st) * cu_vd t)))
      else if key_match (cu_pd t) (cu_keys t) (entryIdx t ! h) key
        then Some (t, Some (nat (entryIdx t ! h) * cu_vd t))
      else lookup_loop t key create (next_bucket (cu_capacity t) h))"

definition lookup :: "hash_table_cu \<Rightarrow> int list \<Rightarrow> bool \<Rightarrow> (hash_table_cu \<times> nat option) option" where
  "lookup t key create =
     (if cu_capacity t = 0 then None
      else lookup_loop t key create (hash (cu_pd t) key mod cu_capacity t))"

text \<open>The same loop cut off after \<open>n\<close> probed buckets.\<close>

fun lookup_fuel ::
  "nat \<Rightarrow> hash_table_cu \<Rightarrow> int list \<Rightarrow> bool \<Rightarrow> nat \<Rightarrow> (hash_table_cu \<times> nat option) option" where
  "lookup_fuel 0 t key create h = None"
| "lookup_fuel (Suc n) t key create h =
     (if entryIdx t ! h = - 2 then lookup_fuel n t key create (next_bucket (cu_capacity t) h)
      else if entryIdx t ! h = - 1 then
        (if \<not> create then Some (t, None)
         else case next_free_slot t of
                None \<Rightarrow> None
              | Some st \<Rightarrow>
                  Some ((snd st)\<lparr>cu_keys := write_key (cu_pd t) key (nat (fst st)) (cu_keys t),
                                  entryIdx := (entryIdx t)[h := fst st]\<rparr>,
                        Some (nat (fst st) * cu_vd t)))
      else if key_match (cu_pd t) (cu_keys t) (entryIdx t ! h) key
        then Some (t, Some (nat (entryIdx t ! h) * cu_vd t))
      else lookup_fuel n t key create (next_bucket (cu_capacity t) h))"

text \<open>
  One iteration \<open>r\<close> of the corner loop of \<open>splat_kernel\<close> in that file:
  \<^verbatim>\<open>
  for (...) key[i] = y[i] + canonical[r * (pd + 1) + rank[i]];
  scalar_t* val = hashTable.lookup(key, true);
  for (uint16_t i = 0; i < vd; ++i) gpuAtomicAdd(&val[i], bary[r] * value[i]);
  \<close>
\<close>

definition splat_corner_cu ::
  "nat \<Rightarrow> nat \<Rightarrow> int list \<Rightarrow> lattice_point \<Rightarrow> real list \<Rightarrow> nat \<Rightarrow> hash_table_cu \<Rightarrow>
   hash_table_cu option" where
  "splat_corner_cu pd vd canon p val r t =
     (case lookup t (corner_key pd canon p r) True of
        None \<Rightarrow> None
      | Some tv \<Rightarrow>
          (case snd tv of
             None \<Rightarrow> None
           | Some base \<Rightarrow>
               if length (cu_values (fst tv)) < base + vd then None
               else Some ((fst tv)\<lparr>cu_values :=
                             atomic_add_row vd base (matB p ! r) val (cu_values (fst tv))\<rparr>)))"

text \<open>Thread \<open>n\<close> of that \<open>splat_kernel\<close>; the geometry is the one of \<open>splat_geometry\<close>.\<close>

definition splat_kernel_cu ::
  "real list \<Rightarrow> int list \<Rightarrow> real list list \<Rightarrow> real list list \<Rightarrow> nat \<Rightarrow> hash_table_cu \<Rightarrow>
   hash_table_cu option" where
  "splat_kernel_cu sf canon src ref n t =
     (if length ref \<le> n then Some t
      else if length src \<le> n then None
      else case splat_geometry (length (ref ! n) mod 65536) (ref ! n) sf of
             None \<Rightarrow> None
           | Some p \<Rightarrow>
               fold_option
                 (splat_corner_cu (length (ref ! n) mod 65536) (length (src ! n) mod 65536)
                    canon p (src ! n))
                 [0..<length (ref ! n) mod 65536 + 1] t)"

record lattice_cu =
  cu_lat_pd :: nat
  cu_lat_vd :: nat
  cu_lat_N :: nat
  cu_scaleFactor :: "real list"
  cu_canonical :: "int list"
  cu_hashTable :: hash_table_cu

definition PermutohedralLatticeGPU_cu :: "nat \<Rightarrow> nat \<Rightarrow> nat \<Rightarrow> lattice_cu" where
  "PermutohedralLatticeGPU_cu pd vd N =
     \<lparr>cu_lat_pd = pd, cu_lat_vd = vd, cu_lat_N = N,
      cu_scaleFactor = scaleFactor_table pd,
      cu_canonical = canonical_table pd,
      cu_hashTable = HashTableGPU_cu pd vd N\<rparr>"

text \<open>The kernel launched by \<open>splat\<close> of that file, run to its end on the table.\<close>

definition splat_launch_cu ::
  "lattice_cu \<Rightarrow> real list list \<Rightarrow> real list list \<Rightarrow> hash_table_cu option" where
  "splat_launch_cu L src ref =
     fold_option (splat_kernel_cu (cu_scaleFactor L) (cu_canonical L) src ref)
       (launch_threads (cu_lat_N L)) (cu_hashTable L)"

text \<open>
  \<open>splat\<close>: here too the kernel takes \<open>HashTableGPU<scalar_t> hashTable\<close> by value, and the
  destructor of the copy frees the five allocations at the end of the launch statement.
\<close>

definition splat_cu :: "lattice_cu \<Rightarrow> real list list \<Rightarrow> real list list \<Rightarrow> hash_table_cu option" where
  "splat_cu L src ref =
     (case splat_launch_cu L src ref of
        None \<Rightarrow> None
      | Some t \<Rightarrow> Some (HashTableGPU_cu_destructor t))"

text \<open>\<open>at::ones_like(src)\<close>.\<close>

definition ones_like :: "real list list \<Rightarrow> real list list" where
  "ones_like src = map (map (\<lambda>x. 1)) src"

text \<open>
  \<^verbatim>\<open>
  Tensor filter(Tensor src, Tensor ref) {
    splat(src, ref);
    gpuErrchk(cudaDeviceSynchronize());
    std::cout << "GPU Hash table size: " << hashTable.size() << std::endl;
    /** TODO: fixme once computations completed **/
    return at::ones_like(src);
  }
  \<close>
  The line that prints the size reads the counter through the table that \<open>splat\<close> left.
\<close>

definition filter_cu :: "lattice_cu \<Rightarrow> real list list \<Rightarrow> real list list \<Rightarrow> real list list option" where
  "filter_cu L src ref =
     (case splat_cu L src ref of
        None \<Rightarrow> None
      | Some t \<Rightarrow>
          (case size_cu t of
             None \<Rightarrow> None
           | Some k \<Rightarrow> Some (ones_like src)))"

definition permutohedral_cuda_filter_cu ::
  "real list list \<Rightarrow> real list list \<Rightarrow> real list list option" where
  "permutohedral_cuda_filter_cu src ref =
     filter_cu
       (PermutohedralLatticeGPU_cu (row_size ref mod 65536) (row_size src mod 65536) (length src))
       src ref"

section \<open>The host side of \<open>permutohedral_cuda_filter\<close>\<close>

text \<open>
  What the host does up to the first kernel launch, as the list of its device requests.
  \<open>permutohedral_cuda_filter\<close> builds the lattice from \<open>ref.size(-1)\<close>, \<open>src.size(-1)\<close> and
  \<open>src.size(0)\<close> and calls \<open>filter\<close>; neither function reads \<open>ref.size(0)\<close> or compares
  sizes.  The constructors request six managed buffers, each through
  \<^verbatim>\<open>gpuErrchk(cudaMallocManaged(&p, bytes))\<close>; \<open>gpuAssert\<close> prints the error and calls
  \<open>exit(code)\<close> when the request did not return \<open>cudaSuccess\<close>.  Whether a request
  succeeds is decided by the runtime, not by the source: it is the parameter \<open>ok\<close>, a
  predicate on the number of bytes.  \<open>w\<close> is \<open>sizeof(scalar_t)\<close>.  The scratch tensors of
  \<open>splat\<close> are allocated by \<open>torch::zeros\<close>, which is taken to succeed.
\<close>

datatype host_event = Malloc nat | Exit | Undefined | Launch_splat nat nat

text \<open>A byte count is \<open>None\<close> when the expression that computes it is undefined.\<close>

fun gpu_mallocs :: "(nat \<Rightarrow> bool) \<Rightarrow> nat option list \<Rightarrow> host_event list" where
  "gpu_mallocs ok [] = []"
| "gpu_mallocs ok (None # ns) = [Undefined]"
| "gpu_mallocs ok (Some n # ns) = (if ok n then Malloc n # gpu_mallocs ok ns else [Exit])"

text \<open>
  The byte counts in the order of the requests: \<open>keys\<close>, \<open>values\<close> and \<open>entry2nid\<close> of
  the table (\<open>capacity = N * (pd + 1)\<close>), then \<open>scaleFactor\<close>, \<open>canonical\<close> and \<open>replay\<close> of
  the lattice.  The products are computed in \<open>size_t\<close> (64 bits); only
  \<open>(pd + 1) * (pd + 1)\<close> is a product of two \<open>int\<close>, undefined from \<open>2^31\<close> on.  A
  \<open>ReplayEntry\<close> has 16 bytes.
\<close>

definition malloc_sizes :: "nat \<Rightarrow> nat \<Rightarrow> nat \<Rightarrow> nat \<Rightarrow> nat option list" where
  "malloc_sizes w pd vd N =
     (let cap = N * (pd + 1) mod 2 ^ 64
      in [Some (cap * pd * 2 mod 2 ^ 64), Some (cap * vd * w mod 2 ^ 64), Some (cap * 4 mod 2 ^ 64),
          Some (pd * w mod 2 ^ 64),
          (if (pd + 1) * (pd + 1) < 2 ^ 31 then Some ((pd + 1) * (pd + 1) * 2) else None),
          Some (N * (pd + 1) * 16 mod 2 ^ 64)])"

text \<open>
  The requests of one call, ending with \<open>Exit\<close>, with undefined behaviour, or with the
  launch of \<open>splat_kernel\<close> on \<open>(N + BLOCK_SIZE - 1) / BLOCK_SIZE\<close> blocks (a \<open>size_t\<close> stored
  in the \<open>unsigned int\<close> of a \<open>dim3\<close>) of \<open>BLOCK_SIZE\<close> threads.
\<close>

definition permutohedral_cuda_filter_host ::
  "(nat \<Rightarrow> bool) \<Rightarrow> nat \<Rightarrow> real list list \<Rightarrow> real list list \<Rightarrow> host_event list" where
  "permutohedral_cuda_filter_host ok w src ref =
     (let pd = row_size ref mod 65536;
          vd = row_size src mod 65536;
          N = length src;
          es = gpu_mallocs ok (malloc_sizes w pd vd N)
      in if Exit \<in> set es \<or> Undefined \<in> set es then es
         else es @ [Launch_splat ((N + 1024 - 1) mod 2 ^ 64 div 1024 mod 2 ^ 32) 1024])"

fun is_launch :: "host_event \<Rightarrow> bool" where
  "is_launch (Launch_splat b k) = True"
| "is_launch e = False"

text \<open>A runtime that grants every request of at least one byte and rejects an empty one.\<close>

definition nonempty_request :: "nat \<Rightarrow> bool" where
  "nonempty_request n = (0 < n)"

text \<open>A request is granted when its byte count is defined and the runtime accepts it.\<close>

fun granted :: "(nat \<Rightarrow> bool) \<Rightarrow> nat option \<Rightarrow> bool" where
  "granted ok None = False"
| "granted ok (Some n) = ok n"

section \<open>Concurrent runs of the corner loop\<close>

text \<open>
  The threads of \<open>splat_kernel\<close> run concurrently, and so do their calls of \<open>insert\<close>.
  One iteration of the corner loop (the call of \<open>insert\<close> and the accumulation that
  follows it) is cut here into its accesses to the shared arrays; a step of a thread is
  one such access, and a run is a sequence of steps of the threads in any order.  The
  position of a thread in the iteration:
  \<^item> \<open>Probe h\<close>: before \<^verbatim>\<open>atomicCAS(&entry2nid[h], -1, -2)\<close>;
  \<^item> \<open>Claimed h\<close>: the exchange returned \<open>-1\<close>, before the loop that writes the key;
  \<^item> \<open>Written h\<close>: before \<^verbatim>\<open>atomicExch(&entry2nid[h], nid)\<close>;
  \<^item> \<open>Compare h cas\<close>: the exchange returned the slot index \<open>cas\<close>, before the loop that
    compares the keys;
  \<^item> \<open>Returned h\<close>: \<open>insert\<close> returned \<open>h\<close>, before the replay entry is written and the
    contribution added;
  \<^item> \<open>Finished h\<close>: the iteration is over.
\<close>

datatype insert_pc =
  Probe nat | Claimed nat | Written nat | Compare nat int | Returned nat | Finished nat

record corner_thread =
  th_key :: "int list"
  th_nid :: nat
  th_weight :: real
  th_value :: "real list"
  th_pc :: insert_pc

text \<open>
  The iteration \<open>r\<close> of thread \<open>n\<close> at its start: key, slot index and weight as in
  \<open>splat_corner\<close>, and the first bucket \<^verbatim>\<open>hash(key) % capacity\<close>.
\<close>

definition corner_instance ::
  "nat \<Rightarrow> int list \<Rightarrow> lattice_point \<Rightarrow> real list \<Rightarrow> nat \<Rightarrow> nat \<Rightarrow> hash_table \<Rightarrow> corner_thread" where
  "corner_instance pd canon p val n r t =
     \<lparr>th_key = corner_key pd canon p r, th_nid = n * (pd + 1) + r, th_weight = matB p ! r,
      th_value = val,
      th_pc = Probe (hash (ht_pd t) (corner_key pd canon p r) mod capacity t)\<rparr>"

text \<open>
  One step of a thread on the table and the replay buffer.  The compare-and-swap reads
  the bucket and, when it holds \<open>-1\<close>, writes \<open>-2\<close>, in one step.  On \<open>-2\<close> the thread does
  not wait: the branch is empty and the thread goes on to the next bucket.  The adds
  into the channels of a slot are atomic and commute; they are one step.  A finished
  thread makes no move.
\<close>

definition thread_step ::
  "corner_thread \<Rightarrow> hash_table \<times> replay_entry list \<Rightarrow>
   (corner_thread \<times> hash_table \<times> replay_entry list) option" where
  "thread_step th s =
     (let t = fst s; rp = snd s in
      case th_pc th of
        Probe h \<Rightarrow>
          if length (entry2nid t) \<le> h then None
          else if entry2nid t ! h = - 2
            then Some (th\<lparr>th_pc := Probe (next_bucket (capacity t) h)\<rparr>, t, rp)
          else if entry2nid t ! h = - 1
            then Some (th\<lparr>th_pc := Claimed h\<rparr>, t\<lparr>entry2nid := (entry2nid t)[h := - 2]\<rparr>, rp)
          else Some (th\<lparr>th_pc := Compare h (entry2nid t ! h)\<rparr>, t, rp)
      | Claimed h \<Rightarrow>
          Some (th\<lparr>th_pc := Written h\<rparr>,
                t\<lparr>keys := write_key (ht_pd t) (th_key th) (th_nid th) (keys t)\<rparr>, rp)
      | Written h \<Rightarrow>
          Some (th\<lparr>th_pc := Returned h\<rparr>,
                t\<lparr>entry2nid := (entry2nid t)[h := int (th_nid th)]\<rparr>, rp)
      | Compare h cas \<Rightarrow>
          if key_match (ht_pd t) (keys t) cas (th_key th)
          then Some (th\<lparr>th_pc := Returned h\<rparr>, t, rp)
          else Some (th\<lparr>th_pc := Probe (next_bucket (capacity t) h)\<rparr>, t, rp)
      | Returned h \<Rightarrow>
          if length rp \<le> th_nid th then None
          else (case lookupValue t h of
                  None \<Rightarrow> None
                | Some base \<Rightarrow>
                    Some (th\<lparr>th_pc := Finished h\<rparr>,
                          t\<lparr>vals := atomic_add_row (ht_vd t) base (th_weight th) (th_value th)
                                      (vals t)\<rparr>,
                          rp[th_nid th := \<lparr>entry = h, weight = th_weight th\<rparr>]))
      | Finished h \<Rightarrow> Some (th, t, rp))"

text \<open>A step of thread \<open>i\<close> of a list of threads, and a run along a schedule.\<close>

definition run_step ::
  "nat \<Rightarrow> corner_thread list \<times> hash_table \<times> replay_entry list \<Rightarrow>
   (corner_thread list \<times> hash_table \<times> replay_entry list) option" where
  "run_step i c =
     (if length (fst c) \<le> i then None
      else case thread_step (fst c ! i) (snd c) of
             None \<Rightarrow> None
           | Some r \<Rightarrow> Some ((fst c)[i := fst r], snd r))"

definition run_schedule ::
  "nat list \<Rightarrow> corner_thread list \<times> hash_table \<times> replay_entry list \<Rightarrow>
   (corner_thread list \<times> hash_table \<times> replay_entry list) option" where
  "run_schedule sched c = fold_option run_step sched c"

section \<open>Facts about the machine arithmetic\<close>

lemma narrow16_id: "- 32768 \<le> x \<Longrightarrow> x \<le> 32767 \<Longrightarrow> narrow16 x = x"
  by (simp add: narrow16_def)

lemma narrow16_range: "- 32768 \<le> narrow16 x \<and> narrow16 x \<le> 32767"
proof -
  have "0 \<le> (x + 32768) mod 65536" "(x + 32768) mod 65536 < 65536"
    by simp_all
  then show ?thesis
    unfolding narrow16_def by linarith
qed

lemma narrow16_add_left: "narrow16 (narrow16 a + b) = narrow16 (a + b)"
proof -
  have "(((a + 32768) mod 65536 - 32768) + b + 32768) mod 65536
        = ((a + 32768) mod 65536 + b) mod 65536"
    by (simp add: algebra_simps)
  also have "\<dots> = (a + 32768 + b) mod 65536"
    by (simp add: mod_add_left_eq)
  finally show ?thesis
    by (simp add: narrow16_def algebra_simps)
qed

section \<open>Facts about the canonical table\<close>

lemma length_fold_upd: "length (fold (\<lambda>j c. c[f j := v]) js c) = length c"
  by (induction js arbitrary: c) simp_all

lemma nth_fold_upd:
  "k < length c \<Longrightarrow>
   fold (\<lambda>j c. c[f j := v]) js c ! k = (if k \<in> f ` set js then v else c ! k)"
proof (induction js arbitrary: c)
  case Nil
  then show ?case by simp
next
  case (Cons j js)
  then show ?case
    by (cases "k = f j") (auto simp: nth_list_update)
qed

lemma in_shift_upt:
  fixes b k lo hi :: nat
  shows "k \<in> (\<lambda>j. b + j) ` set [lo..<hi] \<longleftrightarrow> b + lo \<le> k \<and> k < b + hi"
proof
  assume "k \<in> (\<lambda>j. b + j) ` set [lo..<hi]"
  then show "b + lo \<le> k \<and> k < b + hi" by auto
next
  assume r: "b + lo \<le> k \<and> k < b + hi"
  then have "k = b + (k - b)" and "k - b \<in> set [lo..<hi]" by auto
  then show "k \<in> (\<lambda>j. b + j) ` set [lo..<hi]" by (rule image_eqI)
qed

lemma length_canonical_row: "length (canonical_row pd i c) = length c"
  by (simp add: canonical_row_def length_fold_upd)

lemma nth_two_fold_upd:
  fixes b k n1 n2 :: nat
  assumes "k < length c" and "n1 \<le> n2"
  shows "fold (\<lambda>j c. c[b + j := w]) [n1..<n2] (fold (\<lambda>j c. c[b + j := v]) [0..<n1] c) ! k =
     (if b \<le> k \<and> k < b + n2 then (if k - b < n1 then v else w) else c ! k)"
  using assms by (auto simp: nth_fold_upd length_fold_upd in_shift_upt)

lemma nth_canonical_row:
  assumes "k < length c" and "i \<le> pd" and b: "b = i * (pd + 1)"
  shows "canonical_row pd i c ! k =
     (if b \<le> k \<and> k < b + (pd + 1)
      then (if k - b \<le> pd - i then narrow16 (int i)
            else narrow16 (int i - (int pd + 1)))
      else c ! k)"
proof -
  have row: "canonical_row pd i c =
     fold (\<lambda>j c. c[b + j := narrow16 (int i - (int pd + 1))]) [pd - i + 1..<pd + 1]
       (fold (\<lambda>j c. c[b + j := narrow16 (int i)]) [0..<pd - i + 1] c)"
    unfolding canonical_row_def b ..
  have le: "pd - i + 1 \<le> pd + 1" by simp
  have iff: "k - b < pd - i + 1 \<longleftrightarrow> k - b \<le> pd - i" by auto
  show ?thesis
    unfolding row nth_two_fold_upd [OF assms(1) le] iff ..
qed

lemma length_fold_canonical_row: "length (fold (canonical_row pd) is c) = length c"
  by (induction "is" arbitrary: c) (simp_all add: length_canonical_row)

lemma row_index_unique:
  fixes i i' j m :: nat
  assumes "j < m" and "i' * m \<le> i * m + j" and "i * m + j < i' * m + m"
  shows "i' = i"
proof (rule ccontr)
  assume ne: "i' \<noteq> i"
  show False
  proof (cases "i' < i")
    case True
    then have "Suc i' \<le> i" by simp
    then have "Suc i' * m \<le> i * m" by (rule mult_le_mono1)
    with assms(3) show False by simp
  next
    case False
    with ne have "Suc i \<le> i'" by simp
    then have "Suc i * m \<le> i' * m" by (rule mult_le_mono1)
    with assms(1,2) show False by simp
  qed
qed

lemma nth_fold_canonical_row:
  assumes "k < length c" and "k = i * (pd + 1) + j" and "j \<le> pd"
    and "\<forall>i' \<in> set is. i' \<le> pd"
  shows "fold (canonical_row pd) is c ! k =
     (if i \<in> set is
      then (if j \<le> pd - i then narrow16 (int i) else narrow16 (int i - (int pd + 1)))
      else c ! k)"
  using assms
proof (induction "is" arbitrary: c rule: rev_induct)
  case Nil
  then show ?case by simp
next
  case (snoc i' is')
  have len: "k < length (fold (canonical_row pd) is' c)"
    using snoc.prems(1) by (simp add: length_fold_canonical_row)
  have i': "i' \<le> pd" using snoc.prems(4) by simp
  have IH: "fold (canonical_row pd) is' c ! k =
     (if i \<in> set is'
      then (if j \<le> pd - i then narrow16 (int i) else narrow16 (int i - (int pd + 1)))
      else c ! k)"
    using snoc.IH [OF snoc.prems(1,2,3)] snoc.prems(4) by simp
  have step: "fold (canonical_row pd) (is' @ [i']) c ! k =
      canonical_row pd i' (fold (canonical_row pd) is' c) ! k"
    by simp
  show ?case
  proof (cases "i' = i")
    case True
    have "i * (pd + 1) \<le> k" "k < i * (pd + 1) + (pd + 1)" "k - i * (pd + 1) = j"
      using snoc.prems(2,3) by simp_all
    then show ?thesis
      unfolding step True
      using nth_canonical_row [OF len, of i pd "i * (pd + 1)"] i' True by simp
  next
    case False
    have "j < pd + 1" using snoc.prems(3) by simp
    then have "\<not> (i' * (pd + 1) \<le> k \<and> k < i' * (pd + 1) + (pd + 1))"
      using row_index_unique [of j "pd + 1" i' i] False snoc.prems(2) by blast
    then show ?thesis
      unfolding step
      using nth_canonical_row [OF len i' refl] False IH by auto
  qed
qed

lemma length_canonical_table: "length (canonical_table pd) = (pd + 1) * (pd + 1)"
  unfolding canonical_table_def length_fold_canonical_row by simp

lemma canonical_index_bound:
  fixes i j pd :: nat
  assumes "i \<le> pd" and "j \<le> pd"
  shows "i * (pd + 1) + j < (pd + 1) * (pd + 1)"
proof -
  have "i * (pd + 1) + j < i * (pd + 1) + (pd + 1)" using assms(2) by simp
  also have "\<dots> = Suc i * (pd + 1)" by simp
  also have "\<dots> \<le> (pd + 1) * (pd + 1)"
    using assms(1) by (intro mult_le_mono1) simp
  finally show ?thesis .
qed

lemma nth_canonical_table:
  assumes "i \<le> pd" and "j \<le> pd"
  shows "canonical_table pd ! (i * (pd + 1) + j) =
     (if j \<le> pd - i then narrow16 (int i) else narrow16 (int i - (int pd + 1)))"
proof -
  have len: "i * (pd + 1) + j < length (replicate ((pd + 1) * (pd + 1)) (0::int))"
    using canonical_index_bound [OF assms] by (simp only: length_replicate)
  have mem: "i \<in> set [0..<pd + 1]" using assms(1) by (simp del: upt_Suc)
  have all: "\<forall>i' \<in> set [0..<pd + 1]. i' \<le> pd" by (simp del: upt_Suc)
  show ?thesis
    unfolding canonical_table_def
    using nth_fold_canonical_row [OF len refl assms(2) all] mem by simp
qed

lemma nth_table_row:
  assumes "r \<le> pd" and "j \<le> pd" and "length c = (pd + 1) * (pd + 1)"
  shows "table_row pd r c ! j = c ! (r * (pd + 1) + j)"
proof -
  have "r * (pd + 1) + j < length c"
    using canonical_index_bound [OF assms(1,2)] assms(3) by simp
  then show ?thesis
    unfolding table_row_def using assms(2) by simp
qed

lemma length_table_row:
  assumes "r \<le> pd" and "length c = (pd + 1) * (pd + 1)"
  shows "length (table_row pd r c) = pd + 1"
proof -
  have "r * (pd + 1) + pd < length c"
    using canonical_index_bound [OF assms(1) order_refl] assms(2) by simp
  then show ?thesis
    unfolding table_row_def by simp
qed

lemma table_row_canonical:
  assumes "r \<le> pd"
  shows "table_row pd r (canonical_table pd) =
     replicate (pd + 1 - r) (narrow16 (int r)) @ replicate r (narrow16 (int r - (int pd + 1)))"
proof (rule nth_equalityI)
  show len: "length (table_row pd r (canonical_table pd)) =
      length (replicate (pd + 1 - r) (narrow16 (int r))
        @ replicate r (narrow16 (int r - (int pd + 1))))"
    using assms length_table_row [OF assms length_canonical_table] by simp
  fix j
  assume "j < length (table_row pd r (canonical_table pd))"
  then have j: "j \<le> pd"
    using length_table_row [OF assms length_canonical_table] by simp
  have "table_row pd r (canonical_table pd) ! j = canonical_table pd ! (r * (pd + 1) + j)"
    by (rule nth_table_row [OF assms j length_canonical_table])
  also have "\<dots> = (if j \<le> pd - r then narrow16 (int r) else narrow16 (int r - (int pd + 1)))"
    by (rule nth_canonical_table [OF assms j])
  also have "\<dots> = (replicate (pd + 1 - r) (narrow16 (int r))
        @ replicate r (narrow16 (int r - (int pd + 1)))) ! j"
    using assms j by (auto simp: nth_append)
  finally show "table_row pd r (canonical_table pd) ! j =
      (replicate (pd + 1 - r) (narrow16 (int r))
        @ replicate r (narrow16 (int r - (int pd + 1)))) ! j" .
qed

section \<open>Facts about loops that can fail\<close>

lemma fold_option_append:
  "fold_option f (xs @ ys) s =
     (case fold_option f xs s of None \<Rightarrow> None | Some s' \<Rightarrow> fold_option f ys s')"
  by (induction xs arbitrary: s) (auto split: option.splits)

lemma fold_option_invariant:
  assumes "fold_option f xs s = Some s'" and "P s"
    and "\<And>x a b. x \<in> set xs \<Longrightarrow> P a \<Longrightarrow> f x a = Some b \<Longrightarrow> P b"
  shows "P s'"
  using assms
proof (induction xs arbitrary: s)
  case Nil
  then show ?case by simp
next
  case (Cons x xs)
  from Cons.prems(1) obtain m where m: "f x s = Some m" and rest: "fold_option f xs m = Some s'"
    by (auto split: option.splits)
  have "P m" using Cons.prems(3) [of x s m] Cons.prems(2) m by simp
  then show ?case
    using Cons.IH [OF rest] Cons.prems(3) by auto
qed

lemma fold_option_total:
  assumes "P s"
    and "\<And>x a. x \<in> set xs \<Longrightarrow> P a \<Longrightarrow> \<exists>b. f x a = Some b \<and> P b"
  shows "\<exists>s'. fold_option f xs s = Some s' \<and> P s'"
  using assms
proof (induction xs arbitrary: s)
  case Nil
  then show ?case by simp
next
  case (Cons x xs)
  from Cons.prems(2) [of x s] Cons.prems(1) obtain m where m: "f x s = Some m" "P m"
    by auto
  from Cons.IH [OF m(2)] Cons.prems(2) obtain s' where "fold_option f xs m = Some s'" "P s'"
    by auto
  with m show ?case by auto
qed

section \<open>Facts about the elevation\<close>

definition tail_sum :: "real list \<Rightarrow> real list \<Rightarrow> nat \<Rightarrow> nat \<Rightarrow> real" where
  "tail_sum pos sf pd j = (\<Sum>k = j..<pd. pos ! k * sf ! k)"

definition elevated_value :: "real list \<Rightarrow> real list \<Rightarrow> nat \<Rightarrow> nat \<Rightarrow> real" where
  "elevated_value pos sf pd j =
     (if j = 0 then tail_sum pos sf pd 0
      else tail_sum pos sf pd j - real j * (pos ! (j - 1) * sf ! (j - 1)))"

lemma tail_sum_step: "j < pd \<Longrightarrow> tail_sum pos sf pd j = pos ! j * sf ! j + tail_sum pos sf pd (Suc j)"
  unfolding tail_sum_def by (simp add: sum.atLeast_Suc_lessThan)

lemma tail_sum_end: "pd \<le> j \<Longrightarrow> tail_sum pos sf pd j = 0"
  unfolding tail_sum_def by simp

lemma length_elevate_loop: "length (elevate_loop i pos sf e) = length e"
  by (induction i arbitrary: e) simp_all

lemma elevate_loop_nth:
  assumes "length e = pd + 1" and "i < pd"
    and "\<And>j. i < j \<Longrightarrow> j \<le> pd \<Longrightarrow> e ! j = elevated_value pos sf pd j"
    and "1 \<le> j" and "j \<le> pd"
  shows "elevate_loop i pos sf e ! j = elevated_value pos sf pd j"
  using assms
proof (induction i arbitrary: e)
  case 0
  then show ?case by simp
next
  case (Suc k)
  let ?v = "e ! (Suc k + 1) - real (Suc k) * pos ! k * sf ! k
             + real (Suc k + 2) * pos ! Suc k * sf ! Suc k"
  let ?e = "e[Suc k := ?v]"
  have next_val: "e ! (Suc k + 1) = elevated_value pos sf pd (Suc k + 1)"
    using Suc.prems(2,3) by simp
  have v: "?v = elevated_value pos sf pd (Suc k)"
    unfolding next_val elevated_value_def
    using tail_sum_step [of "Suc k" pd pos sf] Suc.prems(2)
    by (simp add: algebra_simps)
  have "elevate_loop k pos sf ?e ! j = elevated_value pos sf pd j"
  proof (rule Suc.IH)
    show "length ?e = pd + 1" using Suc.prems(1) by simp
    show "k < pd" using Suc.prems(2) by simp
    show "1 \<le> j" "j \<le> pd" by fact+
    fix j' assume "k < j'" "j' \<le> pd"
    then show "?e ! j' = elevated_value pos sf pd j'"
      using v Suc.prems(1,3) by (cases "j' = Suc k") (simp_all add: nth_list_update)
  qed
  then show ?case by simp
qed

lemma elevate_nth:
  assumes "1 \<le> pd" and "j \<le> pd" and len: "length e = pd + 1"
  shows "elevate pd pos sf e ! j = elevated_value pos sf pd j"
    and "length (elevate pd pos sf e) = pd + 1"
proof -
  let ?e1 = "e[pd := - real pd * pos ! (pd - 1) * sf ! (pd - 1)]"
  let ?e2 = "elevate_loop (pd - 1) pos sf ?e1"
  have len1: "length ?e1 = pd + 1" using len by simp
  have "?e1 ! pd = - real pd * pos ! (pd - 1) * sf ! (pd - 1)"
    using len by simp
  then have top: "?e1 ! pd = elevated_value pos sf pd pd"
    using assms(1) by (simp add: elevated_value_def tail_sum_end)
  have e2: "?e2 ! j' = elevated_value pos sf pd j'" if "1 \<le> j'" "j' \<le> pd" for j'
  proof (rule elevate_loop_nth [OF len1 _ _ that])
    show "pd - 1 < pd" using assms(1) by simp
    fix i assume "pd - 1 < i" "i \<le> pd"
    then have "i = pd" by simp
    then show "?e1 ! i = elevated_value pos sf pd i" using top by simp
  qed
  have len2: "length ?e2 = pd + 1" using len1 by (simp only: length_elevate_loop)
  have el: "elevate pd pos sf e = ?e2[0 := ?e2 ! 1 + 2 * pos ! 0 * sf ! 0]"
    by (simp add: elevate_def Let_def)
  show "length (elevate pd pos sf e) = pd + 1"
    unfolding el using len2 by simp
  show "elevate pd pos sf e ! j = elevated_value pos sf pd j"
  proof (cases "j = 0")
    case True
    have "?e2 ! 1 = elevated_value pos sf pd 1" using e2 [of 1] assms(1) by simp
    then show ?thesis
      unfolding el True using len2 tail_sum_step [of 0 pd pos sf] assms(1)
      by (simp add: elevated_value_def)
  next
    case False
    then show ?thesis
      unfolding el using e2 [of j] assms(2) len2 by simp
  qed
qed

lemma sum_tail_sum:
  "(\<Sum>j\<le>pd. tail_sum pos sf pd j) = (\<Sum>k<pd. real (k + 1) * (pos ! k * sf ! k))"
proof (induction pd)
  case 0
  then show ?case by (simp add: tail_sum_def)
next
  case (Suc pd)
  have step: "tail_sum pos sf (Suc pd) j = tail_sum pos sf pd j + pos ! pd * sf ! pd"
    if "j \<le> pd" for j
    using that unfolding tail_sum_def by simp
  have "(\<Sum>j\<le>Suc pd. tail_sum pos sf (Suc pd) j) =
      (\<Sum>j\<le>pd. tail_sum pos sf (Suc pd) j) + tail_sum pos sf (Suc pd) (Suc pd)"
    by simp
  also have "\<dots> = (\<Sum>j\<le>pd. tail_sum pos sf pd j + pos ! pd * sf ! pd)"
    using step by (simp add: tail_sum_end)
  also have "\<dots> = (\<Sum>j\<le>pd. tail_sum pos sf pd j) + real (pd + 1) * (pos ! pd * sf ! pd)"
    by (simp add: sum.distrib algebra_simps)
  finally show ?case
    using Suc.IH by simp
qed

lemma sum_elevated_value: "(\<Sum>j\<le>pd. elevated_value pos sf pd j) = 0"
proof -
  have split: "elevated_value pos sf pd j =
      tail_sum pos sf pd j - (if j = 0 then 0 else real j * (pos ! (j - 1) * sf ! (j - 1)))" for j
    by (simp add: elevated_value_def)
  have shift: "(\<Sum>j\<le>pd. if j = 0 then 0 else real j * (pos ! (j - 1) * sf ! (j - 1))) =
      (\<Sum>k<pd. real (k + 1) * (pos ! k * sf ! k))"
  proof (induction pd)
    case 0
    then show ?case by simp
  next
    case (Suc pd)
    then show ?case by simp
  qed
  show ?thesis
    unfolding split sum_subtractf sum_tail_sum shift by simp
qed

section \<open>Facts about the rounding stage\<close>

lemma narrow16_add_right: "narrow16 (a + narrow16 b) = narrow16 (a + b)"
  using narrow16_add_left [of b a] by (simp add: add.commute)

lemma narrow16_idem: "narrow16 (narrow16 a) = narrow16 a"
  using narrow16_add_left [of a 0] by simp

lemma c_round_near: "\<bar>real_of_int (c_round x) - x\<bar> \<le> 1 / 2"
proof (cases "0 \<le> x")
  case True
  have a: "real_of_int \<lfloor>x + 1 / 2\<rfloor> \<le> x + 1 / 2"
    and b: "x + 1 / 2 < real_of_int \<lfloor>x + 1 / 2\<rfloor> + 1"
    by linarith+
  have "c_round x = \<lfloor>x + 1 / 2\<rfloor>" using True by (simp add: c_round_def)
  with a b show ?thesis by (simp only: abs_le_iff) linarith
next
  case False
  have a: "x - 1 / 2 \<le> real_of_int \<lceil>x - 1 / 2\<rceil>"
    and b: "real_of_int \<lceil>x - 1 / 2\<rceil> < x - 1 / 2 + 1"
    by linarith+
  have "c_round x = \<lceil>x - 1 / 2\<rceil>" using False by (simp add: c_round_def)
  with a b show ?thesis by (simp only: abs_le_iff) linarith
qed

definition lattice_coord :: "nat \<Rightarrow> real list \<Rightarrow> nat \<Rightarrow> int" where
  "lattice_coord pd e i = c_round (e ! i / real (pd + 1))"

lemma lattice_coord_near:
  "\<bar>real_of_int (lattice_coord pd e i * int (pd + 1)) - e ! i\<bar> \<le> real (pd + 1) / 2"
proof -
  define m where "m = real (pd + 1)"
  define c where "c = real_of_int (lattice_coord pd e i)"
  have m: "0 < m" by (simp add: m_def)
  have near: "\<bar>c - e ! i / m\<bar> \<le> 1 / 2"
    unfolding c_def m_def lattice_coord_def by (rule c_round_near)
  have "real_of_int (lattice_coord pd e i * int (pd + 1)) - e ! i = m * (c - e ! i / m)"
    using m by (simp add: c_def m_def field_simps)
  then have "\<bar>real_of_int (lattice_coord pd e i * int (pd + 1)) - e ! i\<bar> = m * \<bar>c - e ! i / m\<bar>"
    using m by (simp add: abs_mult)
  also have "\<dots> \<le> m * (1 / 2)"
    using near m by (intro mult_left_mono) simp_all
  finally show ?thesis by (simp add: m_def)
qed

text \<open>The body of the rounding loop once the conversion is known to be defined.\<close>

definition round_write :: "nat \<Rightarrow> nat \<Rightarrow> lattice_point \<times> int \<Rightarrow> lattice_point \<times> int" where
  "round_write pd i s =
     ((fst s)\<lparr>matY := (matY (fst s))[i := narrow16 (lattice_coord pd (matE (fst s)) i * int (pd + 1))],
               matR := (matR (fst s))[i := 0],
               matB := (matB (fst s))[i := 0]\<rparr>,
      narrow16 (snd s + lattice_coord pd (matE (fst s)) i * int (pd + 1)))"

definition representable :: "nat \<Rightarrow> real list \<Rightarrow> nat list \<Rightarrow> bool" where
  "representable pd e is =
     list_all (\<lambda>i. - 32768 \<le> lattice_coord pd e i \<and> lattice_coord pd e i \<le> 32767) is"

lemma round_step_eq:
  "round_step pd i s =
     (if representable pd (matE (fst s)) [i] then Some (round_write pd i s) else None)"
  unfolding round_step_def round_write_def lattice_coord_def cast_int16_def representable_def
  by (simp add: narrow16_add_right)

lemma matE_round_write [simp]: "matE (fst (round_write pd i s)) = matE (fst s)"
  by (simp add: round_write_def)

lemma matE_fold_round_write [simp]: "matE (fst (fold (round_write pd) is s)) = matE (fst s)"
  by (induction "is" arbitrary: s) simp_all

lemma representable_Cons:
  "representable pd e (i # is) \<longleftrightarrow> representable pd e [i] \<and> representable pd e is"
  by (simp add: representable_def)

lemma round_fold_eq:
  "fold_option (round_step pd) is s =
     (if representable pd (matE (fst s)) is then Some (fold (round_write pd) is s) else None)"
proof (induction "is" arbitrary: s)
  case Nil
  then show ?case by (simp add: representable_def)
next
  case (Cons i "is")
  show ?case
  proof (cases "representable pd (matE (fst s)) [i]")
    case True
    then have "fold_option (round_step pd) (i # is) s =
        fold_option (round_step pd) is (round_write pd i s)"
      by (simp add: round_step_eq)
    also have "\<dots> = (if representable pd (matE (fst s)) is
        then Some (fold (round_write pd) is (round_write pd i s)) else None)"
      unfolding Cons.IH by simp
    finally show ?thesis
      using True by (simp add: representable_Cons [of pd _ i "is"])
  next
    case False
    then have "fold_option (round_step pd) (i # is) s = None"
      by (simp add: round_step_eq)
    then show ?thesis
      using False by (simp add: representable_Cons [of pd _ i "is"])
  qed
qed

lemma length_fold_round_write [simp]:
  "length (matY (fst (fold (round_write pd) is s))) = length (matY (fst s))"
  "length (matR (fst (fold (round_write pd) is s))) = length (matR (fst s))"
  "length (matB (fst (fold (round_write pd) is s))) = length (matB (fst s))"
  by (induction "is" arbitrary: s) (simp_all add: round_write_def)

lemma snd_fold_round_write:
  assumes "narrow16 h = h"
  shows "snd (fold (round_write pd) is (p, h)) =
     narrow16 (h + (\<Sum>i\<leftarrow>is. lattice_coord pd (matE p) i * int (pd + 1)))"
  using assms
proof (induction "is" arbitrary: p h)
  case Nil
  then show ?case by simp
next
  case (Cons i "is")
  let ?s = "round_write pd i (p, h)"
  have "snd (fold (round_write pd) (i # is) (p, h)) = snd (fold (round_write pd) is (fst ?s, snd ?s))"
    by simp
  also have "\<dots> = narrow16 (snd ?s + (\<Sum>i\<leftarrow>is. lattice_coord pd (matE (fst ?s)) i * int (pd + 1)))"
    by (rule Cons.IH) (simp add: round_write_def narrow16_idem)
  also have "\<dots> = narrow16 (h + (\<Sum>i\<leftarrow>i # is. lattice_coord pd (matE p) i * int (pd + 1)))"
    by (simp add: round_write_def narrow16_add_left add.assoc)
  finally show ?case .
qed

lemma nth_fold_round_write:
  assumes "k < length (matY (fst s))" and "k < length (matR (fst s))" and "k < length (matB (fst s))"
  shows "matY (fst (fold (round_write pd) is s)) ! k =
           (if k \<in> set is then narrow16 (lattice_coord pd (matE (fst s)) k * int (pd + 1))
            else matY (fst s) ! k)
       \<and> matR (fst (fold (round_write pd) is s)) ! k = (if k \<in> set is then 0 else matR (fst s) ! k)
       \<and> matB (fst (fold (round_write pd) is s)) ! k = (if k \<in> set is then 0 else matB (fst s) ! k)"
  using assms
proof (induction "is" arbitrary: s)
  case Nil
  show ?case by simp
next
  case (Cons i "is")
  let ?s = "round_write pd i s"
  have len: "k < length (matY (fst ?s))" "k < length (matR (fst ?s))" "k < length (matB (fst ?s))"
    using Cons.prems by (simp_all add: round_write_def)
  have first: "matY (fst ?s) ! k =
        (if k = i then narrow16 (lattice_coord pd (matE (fst s)) k * int (pd + 1)) else matY (fst s) ! k)"
      "matR (fst ?s) ! k = (if k = i then 0 else matR (fst s) ! k)"
      "matB (fst ?s) ! k = (if k = i then 0 else matB (fst s) ! k)"
    using Cons.prems by (simp_all add: round_write_def nth_list_update)
  show ?case
    unfolding fold_simps set_simps insert_iff
    using Cons.IH [OF len] unfolding first matE_round_write
    by (cases "k = i") simp_all
qed

section \<open>Facts about the ranking stage\<close>

text \<open>
  Each pair \<open>i < j\<close> increments the rank of its loser: \<open>i\<close> when its remainder is strictly
  smaller, \<open>j\<close> otherwise.
\<close>

definition loser :: "(nat \<Rightarrow> real) \<Rightarrow> nat \<Rightarrow> nat \<Rightarrow> nat" where
  "loser d i j = (if d i < d j then i else j)"

definition bump :: "nat \<Rightarrow> int list \<Rightarrow> int list" where
  "bump l r = r[l := narrow16 (r ! l + 1)]"

definition losers :: "(nat \<Rightarrow> real) \<Rightarrow> nat \<Rightarrow> nat list" where
  "losers d pd = concat (map (\<lambda>i. map (loser d i) [i + 1..<pd + 1]) [0..<pd])"

text \<open>The number of axes placed above axis \<open>k\<close>.\<close>

definition rank_of :: "(nat \<Rightarrow> real) \<Rightarrow> nat \<Rightarrow> nat \<Rightarrow> nat" where
  "rank_of d pd k =
     length (filter (\<lambda>j. d k < d j) [k + 1..<pd + 1]) + length (filter (\<lambda>i. \<not> d i < d k) [0..<k])"

lemma remainder_matR [simp]: "remainder (p\<lparr>matR := r\<rparr>) = remainder p"
  by (simp add: remainder_def fun_eq_iff)

lemma rank_pair_bump: "rank_pair i j p = p\<lparr>matR := bump (loser (remainder p) i j) (matR p)\<rparr>"
  by (simp add: rank_pair_def bump_def loser_def)

lemma fold_rank_pair:
  "fold (rank_pair i) js p = p\<lparr>matR := fold bump (map (loser (remainder p) i) js) (matR p)\<rparr>"
proof (induction js arbitrary: p)
  case Nil
  then show ?case by simp
next
  case (Cons j js)
  show ?case
    by (simp add: Cons.IH) (simp add: rank_pair_bump)
qed

lemma fold_fold_rank_pair:
  "fold (\<lambda>i. fold (rank_pair i) (js i)) is p =
     p\<lparr>matR := fold bump (concat (map (\<lambda>i. map (loser (remainder p) i) (js i)) is)) (matR p)\<rparr>"
proof (induction "is" arbitrary: p)
  case Nil
  then show ?case by simp
next
  case (Cons i "is")
  define q where "q = fold (rank_pair i) (js i) p"
  have q: "q = p\<lparr>matR := fold bump (map (loser (remainder p) i) (js i)) (matR p)\<rparr>"
    unfolding q_def by (rule fold_rank_pair)
  have "fold (\<lambda>i. fold (rank_pair i) (js i)) (i # is) p = fold (\<lambda>i. fold (rank_pair i) (js i)) is q"
    by (simp add: q_def)
  also have "\<dots> =
      q\<lparr>matR := fold bump (concat (map (\<lambda>i. map (loser (remainder q) i) (js i)) is)) (matR q)\<rparr>"
    by (rule Cons.IH)
  also have "\<dots> =
      p\<lparr>matR := fold bump (concat (map (\<lambda>i. map (loser (remainder p) i) (js i)) (i # is))) (matR p)\<rparr>"
    unfolding q by simp
  finally show ?case .
qed

lemma rank_stage_eq:
  "rank_stage pd p = p\<lparr>matR := fold bump (losers (remainder p) pd) (matR p)\<rparr>"
  unfolding rank_stage_def losers_def by (rule fold_fold_rank_pair)

lemma length_fold_bump [simp]: "length (fold bump ls r) = length r"
  by (induction ls arbitrary: r) (simp_all add: bump_def)

lemma nth_fold_bump:
  assumes "k < length r" and "narrow16 (r ! k) = r ! k"
  shows "fold bump ls r ! k = narrow16 (r ! k + int (count_list ls k))"
  using assms
proof (induction ls arbitrary: r)
  case Nil
  then show ?case by simp
next
  case (Cons l ls)
  have len: "k < length (bump l r)" using Cons.prems(1) by (simp add: bump_def)
  show ?case
  proof (cases "l = k")
    case True
    have val: "bump l r ! k = narrow16 (r ! k + 1)"
      using Cons.prems(1) True by (simp add: bump_def)
    have "fold bump (l # ls) r ! k = narrow16 (bump l r ! k + int (count_list ls k))"
      using Cons.IH [OF len] val by (simp add: narrow16_idem)
    also have "\<dots> = narrow16 (r ! k + 1 + int (count_list ls k))"
      by (simp add: val narrow16_add_left)
    also have "\<dots> = narrow16 (r ! k + int (count_list (l # ls) k))"
      using True by (simp add: add.assoc)
    finally show ?thesis .
  next
    case False
    have val: "bump l r ! k = r ! k"
      using False by (simp add: bump_def)
    show ?thesis
      using Cons.IH [OF len] val Cons.prems(2) False by simp
  qed
qed

lemma count_list_concat: "count_list (concat xss) k = (\<Sum>xs\<leftarrow>xss. count_list xs k)"
  by (induction xss) simp_all

lemma count_list_map: "count_list (map f js) k = length (filter (\<lambda>j. f j = k) js)"
  by (induction js) simp_all

lemma length_filter_sum_list:
  "length (filter P xs) = (\<Sum>x\<leftarrow>xs. if P x then 1 else 0)"
  by (induction xs) simp_all

lemma sum_list_map_zero:
  fixes f :: "'a \<Rightarrow> nat"
  shows "(\<And>x. x \<in> set xs \<Longrightarrow> f x = 0) \<Longrightarrow> (\<Sum>x\<leftarrow>xs. f x) = 0"
  by (induction xs) simp_all

lemma count_losers:
  assumes "k \<le> pd"
  shows "count_list (losers d pd) k = rank_of d pd k"
proof -
  let ?c = "\<lambda>i. length (filter (\<lambda>j. loser d i j = k) [i + 1..<pd + 1])"
  have total: "count_list (losers d pd) k = (\<Sum>i\<leftarrow>[0..<pd]. ?c i)"
    unfolding losers_def count_list_concat by (simp add: count_list_map comp_def)
  have above: "?c i = 0" if "k < i" for i
  proof -
    have "loser d i j \<noteq> k" if "j \<in> set [i + 1..<pd + 1]" for j
      using that \<open>k < i\<close> by (auto simp: loser_def)
    then show ?thesis by (simp add: filter_empty_conv del: upt_Suc)
  qed
  have own: "?c k = length (filter (\<lambda>j. d k < d j) [k + 1..<pd + 1])"
  proof (rule arg_cong [where f = length], rule filter_cong [OF refl])
    fix j assume "j \<in> set [k + 1..<pd + 1]"
    then show "(loser d k j = k) = (d k < d j)" by (auto simp: loser_def)
  qed
  have below: "?c i = (if \<not> d i < d k then 1 else 0)" if "i < k" for i
  proof -
    have eq: "(loser d i j = k) = (j = k \<and> \<not> d i < d k)" for j
      using that by (auto simp: loser_def)
    have "card ({j. j = k} \<inter> set [i + 1..<pd + 1]) = card {k}"
      using that assms by (intro arg_cong [where f = card]) auto
    then have one: "length (filter (\<lambda>j. j = k) [i + 1..<pd + 1]) = 1"
      by (simp add: distinct_length_filter del: upt_Suc)
    show ?thesis
    proof (cases "d i < d k")
      case True
      then show ?thesis unfolding eq by simp
    next
      case False
      then show ?thesis unfolding eq using one by simp
    qed
  qed
  have split: "[0..<pd] = [0..<k] @ [k..<pd]"
    using assms upt_add_eq_append [of 0 k "pd - k"] by simp
  have low: "(\<Sum>i\<leftarrow>[0..<k]. ?c i) = length (filter (\<lambda>i. \<not> d i < d k) [0..<k])"
  proof -
    have "(\<Sum>i\<leftarrow>[0..<k]. ?c i) = (\<Sum>i\<leftarrow>[0..<k]. if \<not> d i < d k then 1 else 0)"
    proof (rule arg_cong [where f = sum_list], rule map_cong [OF refl])
      fix i assume "i \<in> set [0..<k]"
      then have "i < k" by simp
      then show "?c i = (if \<not> d i < d k then 1 else 0)" by (rule below)
    qed
    then show ?thesis by (simp only: length_filter_sum_list)
  qed
  have high: "(\<Sum>i\<leftarrow>[k..<pd]. ?c i) = length (filter (\<lambda>j. d k < d j) [k + 1..<pd + 1])"
  proof (cases "k < pd")
    case True
    then have "[k..<pd] = k # [k + 1..<pd]" by (simp add: upt_conv_Cons)
    moreover have "(\<Sum>i\<leftarrow>[k + 1..<pd]. ?c i) = 0"
    proof (rule sum_list_map_zero)
      fix i assume "i \<in> set [k + 1..<pd]"
      then have "k < i" by simp
      then show "?c i = 0" by (rule above)
    qed
    ultimately show ?thesis using own by simp
  next
    case False
    with assms have "k = pd" by simp
    then show ?thesis by simp
  qed
  show ?thesis
    unfolding total rank_of_def split map_append sum_list_append low high by simp
qed

text \<open>
  Axis \<open>j\<close> is above axis \<open>k\<close> when its remainder is larger, or equal with \<open>j\<close> the earlier
  axis: a strict total order of the axes.
\<close>

definition above :: "(nat \<Rightarrow> real) \<Rightarrow> nat \<Rightarrow> nat \<Rightarrow> bool" where
  "above d j k \<longleftrightarrow> d k < d j \<or> (d k = d j \<and> j < k)"

lemma above_total: "j \<noteq> k \<Longrightarrow> above d j k \<or> above d k j"
  by (auto simp: above_def)

lemma above_trans: "above d i j \<Longrightarrow> above d j k \<Longrightarrow> above d i k"
  by (auto simp: above_def)

lemma above_irrefl: "\<not> above d k k"
  by (simp add: above_def)

lemma rank_of_card:
  assumes "k \<le> pd"
  shows "rank_of d pd k = card {j. j \<le> pd \<and> above d j k}"
proof -
  let ?A = "{j. d k < d j} \<inter> set [k + 1..<pd + 1]"
  let ?B = "{i. \<not> d i < d k} \<inter> set [0..<k]"
  have "rank_of d pd k = card ?A + card ?B"
    unfolding rank_of_def by (simp only: distinct_length_filter distinct_upt)
  also have "\<dots> = card (?A \<union> ?B)"
    by (rule card_Un_disjoint [symmetric]) auto
  also have "?A \<union> ?B = {j. j \<le> pd \<and> above d j k}"
  proof -
    have ne: "k < x" if "d k < d x" "\<not> x < k" for x
      using that by (cases "x = k") auto
    have "set [k + 1..<pd + 1] = {j. k < j \<and> j \<le> pd}" "set [0..<k] = {i. i < k}"
      by auto
    then show ?thesis
      using assms ne by (auto simp: above_def simp del: set_upt upt_Suc)
  qed
  finally show ?thesis .
qed

lemma rank_of_le:
  assumes "k \<le> pd"
  shows "rank_of d pd k \<le> pd"
proof -
  have "{j. j \<le> pd \<and> above d j k} \<subseteq> {..pd} - {k}"
    by (auto simp: above_irrefl)
  then have "card {j. j \<le> pd \<and> above d j k} \<le> card ({..pd} - {k})"
    by (intro card_mono) auto
  also have "\<dots> = pd"
    using assms by simp
  finally show ?thesis
    by (simp only: rank_of_card [OF assms])
qed

lemma rank_of_less:
  assumes "k \<le> pd" and "k' \<le> pd" and "above d k k'"
  shows "rank_of d pd k < rank_of d pd k'"
proof -
  have "{j. j \<le> pd \<and> above d j k} \<subset> {j. j \<le> pd \<and> above d j k'}"
  proof
    show "{j. j \<le> pd \<and> above d j k} \<subseteq> {j. j \<le> pd \<and> above d j k'}"
      using assms(3) by (auto intro: above_trans)
    have "k \<in> {j. j \<le> pd \<and> above d j k'}" using assms by simp
    moreover have "k \<notin> {j. j \<le> pd \<and> above d j k}" by (simp add: above_irrefl)
    ultimately show "{j. j \<le> pd \<and> above d j k} \<noteq> {j. j \<le> pd \<and> above d j k'}"
      by blast
  qed
  then have "card {j. j \<le> pd \<and> above d j k} < card {j. j \<le> pd \<and> above d j k'}"
    by (intro psubset_card_mono) auto
  then show ?thesis
    by (simp only: rank_of_card [OF assms(1)] rank_of_card [OF assms(2)])
qed

lemma rank_of_inj: "inj_on (rank_of d pd) {..pd}"
proof (rule inj_onI)
  fix k k'
  assume k: "k \<in> {..pd}" and k': "k' \<in> {..pd}" and eq: "rank_of d pd k = rank_of d pd k'"
  show "k = k'"
  proof (rule ccontr)
    assume "k \<noteq> k'"
    then consider "above d k k'" | "above d k' k"
      using above_total by blast
    then show False
    proof cases
      case 1
      then show False using rank_of_less [of k pd k' d] k k' eq by simp
    next
      case 2
      then show False using rank_of_less [of k' pd k d] k k' eq by simp
    qed
  qed
qed

lemma rank_of_image: "rank_of d pd ` {..pd} = {..pd}"
proof (rule card_subset_eq)
  show "finite {..pd}" by simp
  show "rank_of d pd ` {..pd} \<subseteq> {..pd}"
    using rank_of_le by auto
  show "card (rank_of d pd ` {..pd}) = card {..pd}"
    by (rule card_image [OF rank_of_inj])
qed

lemma matR_rank_stage:
  assumes "length (matR p) = pd + 1" and "k \<le> pd" and "matR p ! k = 0"
  shows "matR (rank_stage pd p) ! k = narrow16 (int (rank_of (remainder p) pd k))"
proof -
  have "k < length (matR p)" using assms(1,2) by simp
  moreover have "narrow16 (matR p ! k) = matR p ! k"
    using assms(3) by (simp add: narrow16_def)
  ultimately have "fold bump (losers (remainder p) pd) (matR p) ! k =
      narrow16 (matR p ! k + int (count_list (losers (remainder p) pd) k))"
    by (rule nth_fold_bump)
  then show ?thesis
    unfolding rank_stage_eq using assms(3) count_losers [OF assms(2)] by simp
qed

lemma rank_stage_frame [simp]:
  "matE (rank_stage pd p) = matE p"
  "matY (rank_stage pd p) = matY p"
  "matB (rank_stage pd p) = matB p"
  "length (matR (rank_stage pd p)) = length (matR p)"
  by (simp_all add: rank_stage_eq)

lemma rank_stage_permutation:
  assumes "length (matR p) = pd + 1" and "pd \<le> 32767"
    and "\<And>k. k \<le> pd \<Longrightarrow> matR p ! k = 0"
  shows "matR (rank_stage pd p) = map (\<lambda>k. int (rank_of (remainder p) pd k)) [0..<pd + 1]"
    and "distinct (matR (rank_stage pd p))"
    and "set (matR (rank_stage pd p)) = {0..int pd}"
proof -
  let ?d = "remainder p"
  show eq: "matR (rank_stage pd p) = map (\<lambda>k. int (rank_of ?d pd k)) [0..<pd + 1]"
  proof (rule nth_equalityI)
    show "length (matR (rank_stage pd p)) = length (map (\<lambda>k. int (rank_of ?d pd k)) [0..<pd + 1])"
      using assms(1) by simp
    fix k assume "k < length (matR (rank_stage pd p))"
    then have k: "k \<le> pd" using assms(1) by simp
    have "int (rank_of ?d pd k) \<le> 32767"
      using rank_of_le [OF k, of ?d] assms(2) by simp
    then have "narrow16 (int (rank_of ?d pd k)) = int (rank_of ?d pd k)"
      by (intro narrow16_id) simp_all
    then show "matR (rank_stage pd p) ! k = map (\<lambda>k. int (rank_of ?d pd k)) [0..<pd + 1] ! k"
      using matR_rank_stage [OF assms(1) k assms(3) [OF k]] k
      by (simp del: upt_Suc)
  qed
  have set_upt: "set [0..<pd + 1] = {..pd}" by auto
  have inj: "inj_on (\<lambda>k. int (rank_of ?d pd k)) {..pd}"
    using rank_of_inj [of ?d pd] by (auto simp: inj_on_def)
  show "distinct (matR (rank_stage pd p))"
    unfolding eq distinct_map set_upt using inj by simp
  have "set (matR (rank_stage pd p)) = int ` (rank_of ?d pd ` {..pd})"
    unfolding eq set_map set_upt by (simp add: image_image)
  also have "\<dots> = int ` {..pd}"
    by (simp only: rank_of_image)
  also have "\<dots> = {0..int pd}"
    by (simp add: atLeast0AtMost [symmetric] image_int_atLeastAtMost)
  finally show "set (matR (rank_stage pd p)) = {0..int pd}" .
qed

section \<open>Facts about \<open>h\<close> and the rank correction\<close>

lemma abs_c_div: "\<bar>c_div a b\<bar> \<le> \<bar>a\<bar> div \<bar>b\<bar>"
proof -
  have nonneg: "0 \<le> \<bar>a\<bar> div \<bar>b\<bar>"
    by (simp add: div_int_pos_iff)
  have "\<bar>c_div a b\<bar> = \<bar>sgn a\<bar> * \<bar>sgn b\<bar> * (\<bar>a\<bar> div \<bar>b\<bar>)"
    unfolding c_div_def using nonneg by (simp only: abs_mult abs_of_nonneg)
  also have "\<dots> \<le> 1 * 1 * (\<bar>a\<bar> div \<bar>b\<bar>)"
    using nonneg by (intro mult_mono) (auto simp: abs_sgn_eq)
  finally show ?thesis by simp
qed

lemma c_div_mult:
  assumes "0 < m"
  shows "c_div (m * c) m = c"
proof -
  have "\<bar>m * c\<bar> div \<bar>m\<bar> = \<bar>c\<bar>"
    using assms by (simp add: abs_mult)
  then show ?thesis
    using assms unfolding c_div_def by (simp add: sgn_mult mult_sgn_abs)
qed

text \<open>The value of \<open>h\<close> after the rounding stage, from the sum of the rounded coordinates.\<close>

definition h_of :: "nat \<Rightarrow> real list \<Rightarrow> int" where
  "h_of pd e =
     narrow16 (c_div (narrow16 (\<Sum>i\<leftarrow>[0..<pd + 1]. lattice_coord pd e i * int (pd + 1))) (int (pd + 1)))"

lemma h_of_bound:
  assumes zero: "(\<Sum>j\<le>pd. e ! j) = 0"
  shows "\<bar>h_of pd e\<bar> \<le> int (pd + 1)"
proof -
  define m where "m = int (pd + 1)"
  define C where "C = (\<Sum>i\<leftarrow>[0..<pd + 1]. lattice_coord pd e i)"
  define S where "S = (\<Sum>i\<leftarrow>[0..<pd + 1]. lattice_coord pd e i * int (pd + 1))"
  have m: "0 < m" by (simp add: m_def)
  have S: "S = m * C"
    unfolding S_def C_def m_def sum_list_mult_const by (simp only: mult.commute)
  have h: "h_of pd e = narrow16 (c_div (narrow16 S) m)"
    by (simp only: h_of_def S_def m_def)
  show "\<bar>h_of pd e\<bar> \<le> int (pd + 1)"
  proof (cases "pd + 1 \<le> 255")
    case True
    have S_set: "real_of_int S = (\<Sum>i\<le>pd. real_of_int (lattice_coord pd e i * int (pd + 1)))"
    proof -
      have "set [0..<pd + 1] = {..pd}" by auto
      then show ?thesis
        unfolding S_def by (simp add: sum_list_distinct_conv_sum_set del: set_upt upt_Suc)
    qed
    have "\<bar>real_of_int S\<bar> = \<bar>(\<Sum>i\<le>pd. real_of_int (lattice_coord pd e i * int (pd + 1)) - e ! i)\<bar>"
      unfolding S_set sum_subtractf zero by simp
    also have "\<dots> \<le> (\<Sum>i\<le>pd. \<bar>real_of_int (lattice_coord pd e i * int (pd + 1)) - e ! i\<bar>)"
      by (rule sum_abs)
    also have "\<dots> \<le> (\<Sum>i\<le>pd. real (pd + 1) / 2)"
      by (intro sum_mono lattice_coord_near)
    also have "\<dots> = real (pd + 1) * real (pd + 1) / 2"
      by simp
    finally have "2 * \<bar>real_of_int S\<bar> \<le> real_of_int (m * m)"
      by (simp add: m_def)
    then have "real_of_int (2 * \<bar>S\<bar>) \<le> real_of_int (m * m)"
      by simp
    then have two_S: "2 * \<bar>S\<bar> \<le> m * m"
      by (simp only: of_int_le_iff)
    have "m \<le> 255" using True by (simp add: m_def)
    then have "m * m \<le> 255 * 255"
      using m by (intro mult_mono) simp_all
    with two_S have "\<bar>S\<bar> \<le> 32767" by simp
    then have "narrow16 S = S"
      by (intro narrow16_id) simp_all
    then have "c_div (narrow16 S) m = C"
      using c_div_mult [OF m] S by simp
    moreover have "2 * \<bar>C\<bar> \<le> m"
    proof -
      have "m * (2 * \<bar>C\<bar>) \<le> m * m"
        using two_S m unfolding S by (simp add: abs_mult)
      then show ?thesis
        using m by (simp only: mult_le_cancel_left_pos)
    qed
    moreover from this \<open>m \<le> 255\<close> have "narrow16 C = C"
      by (intro narrow16_id) simp_all
    ultimately show ?thesis
      using m unfolding h by (simp add: m_def)
  next
    case False
    then have big: "256 \<le> m" by (simp add: m_def)
    have "\<bar>narrow16 S\<bar> \<le> 32768"
      using narrow16_range [of S] by linarith
    then have "\<bar>narrow16 S\<bar> div \<bar>m\<bar> \<le> 32768 div \<bar>m\<bar>"
      by (rule zdiv_mono1) (use m in simp)
    also have "\<dots> \<le> 32768 div 256"
      using big by (intro zdiv_mono2) simp_all
    finally have "\<bar>c_div (narrow16 S) m\<bar> \<le> 128"
      using abs_c_div [of "narrow16 S" m] by simp
    moreover from this have "narrow16 (c_div (narrow16 S) m) = c_div (narrow16 S) m"
      by (intro narrow16_id) simp_all
    ultimately show ?thesis
      using big unfolding h by (simp add: m_def)
  qed
qed

text \<open>The rounding stage, started on the zeroed rows with the elevated coordinates \<open>e\<close>.\<close>

lemma round_stage_eq:
  "round_stage pd p =
     (if representable pd (matE p) [0..<pd + 1]
      then Some ((fst (fold (round_write pd) [0..<pd + 1] (p, 0)))
                   \<lparr>matB := (matB (fst (fold (round_write pd) [0..<pd + 1] (p, 0))))[pd + 1 := 0]\<rparr>,
                 h_of pd (matE p))
      else None)"
proof -
  have "narrow16 0 = 0" by (simp add: narrow16_def)
  then have "snd (fold (round_write pd) [0..<pd + 1] (p, 0)) =
      narrow16 (0 + (\<Sum>i\<leftarrow>[0..<pd + 1]. lattice_coord pd (matE p) i * int (pd + 1)))"
    by (rule snd_fold_round_write)
  then show ?thesis
    unfolding round_stage_def round_fold_eq h_of_def by (simp del: upt_Suc)
qed

lemma round_stage_Some:
  assumes "round_stage pd p = Some (q, h)"
    and "length (matY p) = pd + 1" and "length (matR p) = pd + 1" and "length (matB p) = pd + 2"
  shows "matE q = matE p" and "h = h_of pd (matE p)"
    and "length (matY q) = pd + 1" and "length (matR q) = pd + 1"
    and "matB q = replicate (pd + 2) 0"
    and "\<And>k. k \<le> pd \<Longrightarrow> matR q ! k = 0"
    and "\<And>k. k \<le> pd \<Longrightarrow> matY q ! k = narrow16 (lattice_coord pd (matE p) k * int (pd + 1))"
proof -
  note upt_Suc [simp del]
  let ?f = "fst (fold (round_write pd) [0..<pd + 1] (p, 0))"
  from assms(1) have q: "q = ?f\<lparr>matB := (matB ?f)[pd + 1 := 0]\<rparr>" and h: "h = h_of pd (matE p)"
    unfolding round_stage_eq by (simp_all split: if_splits)
  show "h = h_of pd (matE p)" by fact
  show "matE q = matE p" unfolding q by simp
  show "length (matY q) = pd + 1" unfolding q using assms(2) by simp
  show "length (matR q) = pd + 1" unfolding q using assms(3) by simp
  have nth: "matY ?f ! k = narrow16 (lattice_coord pd (matE p) k * int (pd + 1))
      \<and> matR ?f ! k = 0 \<and> matB ?f ! k = 0" if "k \<le> pd" for k
  proof -
    have "k \<in> set [0..<pd + 1]" using that by auto
    then show ?thesis
      using nth_fold_round_write [of k "(p, 0)" pd "[0..<pd + 1]"] that assms(2,3,4)
      by (simp del: upt_Suc set_upt)
  qed
  show "matR q ! k = 0" if "k \<le> pd" for k
    unfolding q using nth [OF that] by simp
  show "matY q ! k = narrow16 (lattice_coord pd (matE p) k * int (pd + 1))" if "k \<le> pd" for k
    unfolding q using nth [OF that] by simp
  show "matB q = replicate (pd + 2) 0"
  proof (rule nth_equalityI)
    show "length (matB q) = length (replicate (pd + 2) (0::real))"
      unfolding q using assms(4) by simp
    fix k assume "k < length (matB q)"
    then have k: "k < pd + 2" unfolding q using assms(4) by simp
    have rep: "replicate (pd + 2) (0::real) ! k = 0"
      using k by (simp only: nth_replicate)
    show "matB q ! k = replicate (pd + 2) 0 ! k"
    proof (cases "k \<le> pd")
      case True
      then show ?thesis unfolding rep q using nth [OF True] k assms(4) by simp
    next
      case False
      with k have "k = pd + 1" by simp
      then show ?thesis unfolding rep q using assms(4) by simp
    qed
  qed
qed

text \<open>The correction loops write each index once, from the rank found there.\<close>

definition shifted_rank :: "nat \<Rightarrow> int \<Rightarrow> int \<Rightarrow> int" where
  "shifted_rank pd h r =
     (if 0 < h then (if int (pd + 1) - h \<le> r then narrow16 (r + (h - int (pd + 1))) else narrow16 (r + h))
      else if h < 0 then (if r < - h then narrow16 (r + (h + int (pd + 1))) else narrow16 (r + h))
      else r)"

lemma shift_frame [simp]:
  "matE (shift_pos pd h i p) = matE p" "matB (shift_pos pd h i p) = matB p"
  "length (matR (shift_pos pd h i p)) = length (matR p)"
  "length (matY (shift_pos pd h i p)) = length (matY p)"
  "matE (shift_neg pd h i p) = matE p" "matB (shift_neg pd h i p) = matB p"
  "length (matR (shift_neg pd h i p)) = length (matR p)"
  "length (matY (shift_neg pd h i p)) = length (matY p)"
  by (simp_all add: shift_pos_def shift_neg_def)

lemma fold_shift_frame [simp]:
  "matE (fold (shift_pos pd h) is p) = matE p" "matB (fold (shift_pos pd h) is p) = matB p"
  "length (matR (fold (shift_pos pd h) is p)) = length (matR p)"
  "length (matY (fold (shift_pos pd h) is p)) = length (matY p)"
  "matE (fold (shift_neg pd h) is p) = matE p" "matB (fold (shift_neg pd h) is p) = matB p"
  "length (matR (fold (shift_neg pd h) is p)) = length (matR p)"
  "length (matY (fold (shift_neg pd h) is p)) = length (matY p)"
  by (induction "is" arbitrary: p) simp_all

lemma matR_shift_pos:
  assumes "k < length (matR p)" and "0 < h"
  shows "matR (shift_pos pd h i p) ! k = (if k = i then shifted_rank pd h (matR p ! k) else matR p ! k)"
  using assms by (simp add: shift_pos_def shifted_rank_def)

lemma matR_shift_neg:
  assumes "k < length (matR p)" and "h < 0"
  shows "matR (shift_neg pd h i p) ! k = (if k = i then shifted_rank pd h (matR p ! k) else matR p ! k)"
  using assms by (simp add: shift_neg_def shifted_rank_def)

lemma matR_fold_shift_pos:
  assumes "k < length (matR p)" and "0 < h" and "distinct is"
  shows "matR (fold (shift_pos pd h) is p) ! k =
     (if k \<in> set is then shifted_rank pd h (matR p ! k) else matR p ! k)"
  using assms
proof (induction "is" arbitrary: p)
  case Nil
  then show ?case by simp
next
  case (Cons i "is")
  have len: "k < length (matR (shift_pos pd h i p))" using Cons.prems(1) by simp
  have d: "distinct is" "i \<notin> set is" using Cons.prems(3) by simp_all
  show ?case
    unfolding fold_simps set_simps insert_iff
    using Cons.IH [OF len Cons.prems(2) d(1)] d(2)
    unfolding matR_shift_pos [OF Cons.prems(1,2)]
    by (cases "k = i") auto
qed

lemma matR_fold_shift_neg:
  assumes "k < length (matR p)" and "h < 0" and "distinct is"
  shows "matR (fold (shift_neg pd h) is p) ! k =
     (if k \<in> set is then shifted_rank pd h (matR p ! k) else matR p ! k)"
  using assms
proof (induction "is" arbitrary: p)
  case Nil
  then show ?case by simp
next
  case (Cons i "is")
  have len: "k < length (matR (shift_neg pd h i p))" using Cons.prems(1) by simp
  have d: "distinct is" "i \<notin> set is" using Cons.prems(3) by simp_all
  show ?case
    unfolding fold_simps set_simps insert_iff
    using Cons.IH [OF len Cons.prems(2) d(1)] d(2)
    unfolding matR_shift_neg [OF Cons.prems(1,2)]
    by (cases "k = i") auto
qed

lemma correct_stage_frame [simp]:
  "matE (correct_stage pd h p) = matE p" "matB (correct_stage pd h p) = matB p"
  "length (matR (correct_stage pd h p)) = length (matR p)"
  "length (matY (correct_stage pd h p)) = length (matY p)"
  by (simp_all add: correct_stage_def del: upt_Suc)

lemma matR_correct_stage:
  assumes "length (matR p) = pd + 1" and "k \<le> pd"
  shows "matR (correct_stage pd h p) ! k = shifted_rank pd h (matR p ! k)"
proof -
  have k: "k < length (matR p)" "k \<in> set [0..<pd + 1]" using assms by auto
  consider "0 < h" | "h < 0" | "h = 0" by linarith
  then show ?thesis
  proof cases
    case 1
    then show ?thesis
      unfolding correct_stage_def
      using matR_fold_shift_pos [OF k(1) 1 distinct_upt, of pd 0 "pd + 1"] k(2)
      by (simp del: upt_Suc set_upt)
  next
    case 2
    then show ?thesis
      unfolding correct_stage_def
      using matR_fold_shift_neg [OF k(1) 2 distinct_upt, of pd 0 "pd + 1"] k(2)
      by (simp del: upt_Suc set_upt)
  next
    case 3
    then show ?thesis by (simp add: correct_stage_def shifted_rank_def)
  qed
qed

lemma shifted_rank_range:
  assumes "0 \<le> r" and "r \<le> int pd" and "\<bar>h\<bar> \<le> int (pd + 1)" and "pd \<le> 32767"
  shows "0 \<le> shifted_rank pd h r \<and> shifted_rank pd h r \<le> int pd"
proof -
  have id: "narrow16 x = x" if "0 \<le> x" "x \<le> int pd" for x
    using that assms(4) by (intro narrow16_id) simp_all
  consider "0 < h" | "h < 0" | "h = 0" by linarith
  then show ?thesis
  proof cases
    case 1
    show ?thesis
    proof (cases "int (pd + 1) - h \<le> r")
      case True
      have "0 \<le> r + (h - int (pd + 1))" "r + (h - int (pd + 1)) \<le> int pd"
        using True assms(2,3) by simp_all
      then show ?thesis
        using 1 True id by (simp add: shifted_rank_def)
    next
      case False
      have "0 \<le> r + h" "r + h \<le> int pd"
        using False assms(1) 1 by simp_all
      then show ?thesis
        using 1 False id by (simp add: shifted_rank_def)
    qed
  next
    case 2
    show ?thesis
    proof (cases "r < - h")
      case True
      have "0 \<le> r + (h + int (pd + 1))" "r + (h + int (pd + 1)) \<le> int pd"
        using True assms(1,3) by simp_all
      then show ?thesis
        using 2 True id by (simp add: shifted_rank_def)
    next
      case False
      have "0 \<le> r + h" "r + h \<le> int pd"
        using False assms(2) 2 by simp_all
      then show ?thesis
        using 2 False id by (simp add: shifted_rank_def)
    qed
  next
    case 3
    then show ?thesis using assms(1,2) by (simp add: shifted_rank_def)
  qed
qed

section \<open>Facts about the barycentric stage\<close>

lemma sum_list_update_real:
  fixes xs :: "real list"
  assumes "i < length xs"
  shows "sum_list (xs[i := v]) = sum_list xs - xs ! i + v"
  using assms
proof (induction xs arbitrary: i)
  case Nil
  then show ?case by simp
next
  case (Cons x xs)
  then show ?case by (cases i) simp_all
qed

lemma bary_step_Some:
  assumes "bary_step pd i p = Some q" and "length (matB p) = pd + 2"
  shows "matE q = matE p \<and> matY q = matY p \<and> matR q = matR p
       \<and> length (matB q) = pd + 2 \<and> sum_list (matB q) = sum_list (matB p)
       \<and> 0 \<le> matR p ! i \<and> matR p ! i \<le> int pd"
proof -
  define a where "a = nat (int pd - matR p ! i)"
  define b where "b = nat (int pd + 1 - matR p ! i)"
  define delta where "delta = remainder p i / real (pd + 1)"
  define b1 where "b1 = (matB p)[a := matB p ! a + delta]"
  from assms(1) have range: "0 \<le> int pd - matR p ! i" "int pd + 1 - matR p ! i \<le> int pd + 1"
    and q: "q = p\<lparr>matB := b1[b := b1 ! b - delta]\<rparr>"
    unfolding bary_step_def a_def b_def delta_def b1_def
    by (simp_all add: Let_def split: if_splits)
  have a: "a < length (matB p)" and b: "b < length b1"
    using range assms(2) by (simp_all add: a_def b_def b1_def)
  have "sum_list (b1[b := b1 ! b - delta]) = sum_list b1 - delta"
    using sum_list_update_real [OF b] by simp
  also have "sum_list b1 = sum_list (matB p) + delta"
    unfolding b1_def using sum_list_update_real [OF a] by simp
  finally have "sum_list (matB q) = sum_list (matB p)"
    unfolding q by simp
  then show ?thesis
    using range assms(2) unfolding q by (simp add: b1_def)
qed

lemma bary_step_total:
  assumes "0 \<le> matR p ! i" and "matR p ! i \<le> int pd"
  shows "\<exists>q. bary_step pd i p = Some q"
  using assms unfolding bary_step_def by (simp add: Let_def)


lemma bary_fold_total:
  assumes "list_all (\<lambda>i. 0 \<le> matR p ! i \<and> matR p ! i \<le> int pd) is" and "length (matB p) = pd + 2"
  shows "\<exists>q. fold_option (bary_step pd) is p = Some q"
  using assms
proof (induction "is" arbitrary: p)
  case Nil
  then show ?case by simp
next
  case (Cons i "is")
  from Cons.prems(1) have "0 \<le> matR p ! i" "matR p ! i \<le> int pd" by simp_all
  then obtain m where m: "bary_step pd i p = Some m"
    using bary_step_total by blast
  note first = bary_step_Some [OF m Cons.prems(2)]
  from first Cons.prems(1) have "list_all (\<lambda>i. 0 \<le> matR m ! i \<and> matR m ! i \<le> int pd) is"
    and "length (matB m) = pd + 2"
    by simp_all
  from Cons.IH [OF this] m show ?case by simp
qed

lemma list_all_upt: "list_all P [0..<n + 1] \<longleftrightarrow> (\<forall>i\<le>n. P i)"
  by (auto simp: list_all_iff simp del: upt_Suc)


lemma bary_stage_total:
  assumes "\<And>i. i \<le> pd \<Longrightarrow> 0 \<le> matR p ! i \<and> matR p ! i \<le> int pd" and "length (matB p) = pd + 2"
  shows "\<exists>g. bary_stage pd p = Some g"
proof -
  have "list_all (\<lambda>i. 0 \<le> matR p ! i \<and> matR p ! i \<le> int pd) [0..<pd + 1]"
    using assms(1) by (simp only: list_all_upt) simp
  from bary_fold_total [OF this assms(2)] show ?thesis
    unfolding bary_stage_def by auto
qed

section \<open>The stages composed\<close>

lemma ranked_point_Some:
  assumes "ranked_point pd pos sf = Some (p, h)"
  shows "1 \<le> pd"
    and "length (matR p) = pd + 1" and "length (matY p) = pd + 1"
    and "matB p = replicate (pd + 2) 0"
    and "\<bar>h\<bar> \<le> int (pd + 1)"
    and "\<And>k. k \<le> pd \<Longrightarrow>
           matR p ! k = narrow16 (int (rank_of (remainder p) pd k))"
    and "\<And>k. k \<le> pd \<Longrightarrow> matE p ! k = elevated_value pos sf pd k"
    and "\<And>k. k \<le> pd \<Longrightarrow>
           matY p ! k = narrow16 (lattice_coord pd (matE p) k * int (pd + 1))"
    and "pd \<le> 32767 \<Longrightarrow> distinct (matR p) \<and> set (matR p) = {0..int pd}"
proof -
  define e where "e = elevate pd pos sf (replicate (pd + 1) 0)"
  define p0 where "p0 = (zero_point pd)\<lparr>matE := e\<rparr>"
  from assms show pd: "1 \<le> pd"
    unfolding ranked_point_def by (simp split: if_splits)
  from assms pd obtain p1 where round: "round_stage pd p0 = Some (p1, h)"
    and p: "p = rank_stage pd p1"
    unfolding ranked_point_def p0_def e_def by (auto split: option.splits if_splits)
  have len0: "length (matY p0) = pd + 1" "length (matR p0) = pd + 1" "length (matB p0) = pd + 2"
    by (simp_all add: p0_def zero_point_def)
  note r = round_stage_Some [OF round len0]
  have e0: "matE p0 = e" by (simp add: p0_def)
  have e_nth: "e ! j = elevated_value pos sf pd j" if "j \<le> pd" for j
    unfolding e_def by (rule elevate_nth(1) [OF pd that]) simp
  show "length (matR p) = pd + 1" "length (matY p) = pd + 1" "matB p = replicate (pd + 2) 0"
    unfolding p using r by simp_all
  have "(\<Sum>j\<le>pd. e ! j) = (\<Sum>j\<le>pd. elevated_value pos sf pd j)"
    by (rule sum.cong) (simp_all add: e_nth)
  then have "(\<Sum>j\<le>pd. e ! j) = 0"
    by (simp only: sum_elevated_value)
  then show "\<bar>h\<bar> \<le> int (pd + 1)"
    unfolding r(2) e0 by (rule h_of_bound)
  show "matR p ! k = narrow16 (int (rank_of (remainder p) pd k))" if "k \<le> pd" for k
  proof -
    have "remainder p = remainder p1"
      unfolding p by (simp add: remainder_def fun_eq_iff)
    then show ?thesis
      unfolding p using matR_rank_stage [OF r(4) that r(6) [OF that]] by simp
  qed
  show "matE p ! k = elevated_value pos sf pd k" if "k \<le> pd" for k
    unfolding p using r(1) e0 e_nth [OF that] by simp
  show "matY p ! k = narrow16 (lattice_coord pd (matE p) k * int (pd + 1))" if "k \<le> pd" for k
    unfolding p using r(7) [OF that] r(1) by simp
  show "distinct (matR p) \<and> set (matR p) = {0..int pd}" if "pd \<le> 32767"
    unfolding p using rank_stage_permutation(2,3) [OF r(4) that r(6)] by simp
qed


lemma corrected_point_ranks:
  assumes "ranked_point pd pos sf = Some (p, h)" and "pd \<le> 32767" and "k \<le> pd"
  shows "corrected_point pd pos sf = Some (correct_stage pd h p)"
    and "0 \<le> matR (correct_stage pd h p) ! k \<and> matR (correct_stage pd h p) ! k \<le> int pd"
proof -
  note rp = ranked_point_Some [OF assms(1)]
  show "corrected_point pd pos sf = Some (correct_stage pd h p)"
    unfolding corrected_point_def assms(1) by simp
  have "matR p ! k \<in> set (matR p)"
    using rp(2) assms(3) by (intro nth_mem) simp
  then have "0 \<le> matR p ! k" "matR p ! k \<le> int pd"
    using rp(9) [OF assms(2)] by simp_all
  then show "0 \<le> matR (correct_stage pd h p) ! k \<and> matR (correct_stage pd h p) ! k \<le> int pd"
    unfolding matR_correct_stage [OF rp(2) assms(3)]
    using rp(5) assms(2) by (intro shifted_rank_range)
qed

section \<open>Facts about the slice stage\<close>

lemma length_fold_add [simp]:
  "length (fold (\<lambda>j out. out[j := f out j]) js out) = length out"
  by (induction js arbitrary: out) simp_all

lemma launch_threads_ge: "(N::nat) \<le> (N + 1024 - 1) div 1024 * 1024"
proof -
  have "(N + 1023) mod 1024 < 1024" by simp
  moreover have "(N + 1023) div 1024 * 1024 + (N + 1023) mod 1024 = N + 1023"
    by (rule div_mult_mod_eq)
  ultimately show ?thesis by simp
qed

lemma launch_threads_covers: "n < N \<Longrightarrow> n \<in> set (launch_threads N)"
  unfolding launch_threads_def using launch_threads_ge [of N] by (simp del: upt_Suc)

lemma launch_threads_split:
  assumes "M \<le> N"
  shows "launch_threads N = [0..<M] @ [M..<(N + 1024 - 1) div 1024 * 1024]"
proof -
  have "M \<le> (N + 1024 - 1) div 1024 * 1024"
    using assms launch_threads_ge [of N] by simp
  then show ?thesis
    unfolding launch_threads_def
    using upt_add_eq_append [of 0 M "(N + 1024 - 1) div 1024 * 1024 - M"] by simp
qed

lemma fold_option_idle:
  assumes "\<And>x. x \<in> set xs \<Longrightarrow> f x s = Some s"
  shows "fold_option f xs s = Some s"
  using assms by (induction xs) simp_all

lemma distinct_launch_threads [simp]: "distinct (launch_threads N)"
  by (simp add: launch_threads_def)

section \<open>Facts about \<open>insert\<close>\<close>

lemma insert_fuel_loop:
  "insert_fuel n t key nid h = Some r \<Longrightarrow> insert_loop t key nid h = Some r"
proof (induction n arbitrary: h)
  case 0
  then show ?case by simp
next
  case (Suc n)
  show ?case
    using Suc.prems Suc.IH
    by (subst insert_loop.simps) (auto split: if_splits)
qed

lemma next_bucket_less: "h < cap \<Longrightarrow> next_bucket cap h < cap"
  by (auto simp: next_bucket_def)

lemma next_bucket_mod: "h < cap \<Longrightarrow> next_bucket cap h = (h + 1) mod cap"
  by (auto simp: next_bucket_def)

text \<open>What a returning \<open>insert\<close> has done: claimed an empty bucket, or found its key.\<close>

definition claimed :: "hash_table \<Rightarrow> int list \<Rightarrow> nat \<Rightarrow> nat \<Rightarrow> hash_table" where
  "claimed t key nid h =
     t\<lparr>keys := write_key (ht_pd t) key nid (keys t), entry2nid := (entry2nid t)[h := int nid]\<rparr>"

lemma insert_loop_Some:
  assumes "insert_loop t key nid h = Some r"
  shows "(entry2nid t ! snd r = - 1 \<and> fst r = claimed t key nid (snd r))
       \<or> (entry2nid t ! snd r \<noteq> - 1 \<and> entry2nid t ! snd r \<noteq> - 2
            \<and> key_match (ht_pd t) (keys t) (entry2nid t ! snd r) key \<and> fst r = t)"
proof (rule insert_loop.raw_induct
    [where P = "\<lambda>t key nid h r.
       (entry2nid t ! snd r = - 1 \<and> fst r = claimed t key nid (snd r))
       \<or> (entry2nid t ! snd r \<noteq> - 1 \<and> entry2nid t ! snd r \<noteq> - 2
            \<and> key_match (ht_pd t) (keys t) (entry2nid t ! snd r) key \<and> fst r = t)", OF _ assms])
  fix loop :: "hash_table \<Rightarrow> int list \<Rightarrow> nat \<Rightarrow> nat \<Rightarrow> (hash_table \<times> nat) option"
  fix t key nid h r
  assume IH: "\<And>t key nid h r. loop t key nid h = Some r \<Longrightarrow>
       (entry2nid t ! snd r = - 1 \<and> fst r = claimed t key nid (snd r))
       \<or> (entry2nid t ! snd r \<noteq> - 1 \<and> entry2nid t ! snd r \<noteq> - 2
            \<and> key_match (ht_pd t) (keys t) (entry2nid t ! snd r) key \<and> fst r = t)"
  assume step: "(if entry2nid t ! h = - 2 then loop t key nid (next_bucket (capacity t) h)
      else if entry2nid t ! h = - 1
        then Some (t\<lparr>keys := write_key (ht_pd t) key nid (keys t),
                      entry2nid := (entry2nid t)[h := int nid]\<rparr>, h)
        else if key_match (ht_pd t) (keys t) (entry2nid t ! h) key then Some (t, h)
        else loop t key nid (next_bucket (capacity t) h)) = Some r"
  show "(entry2nid t ! snd r = - 1 \<and> fst r = claimed t key nid (snd r))
       \<or> (entry2nid t ! snd r \<noteq> - 1 \<and> entry2nid t ! snd r \<noteq> - 2
            \<and> key_match (ht_pd t) (keys t) (entry2nid t ! snd r) key \<and> fst r = t)"
  proof (cases "entry2nid t ! h = - 2")
    case True
    with step have "loop t key nid (next_bucket (capacity t) h) = Some r" by simp
    then show ?thesis by (rule IH)
  next
    case not_locked: False
    show ?thesis
    proof (cases "entry2nid t ! h = - 1")
      case True
      with step not_locked have "r = (claimed t key nid h, h)"
        by (simp add: claimed_def)
      with True show ?thesis by simp
    next
      case not_empty: False
      show ?thesis
      proof (cases "key_match (ht_pd t) (keys t) (entry2nid t ! h) key")
        case True
        with step not_locked not_empty have "r = (t, h)" by simp
        with True not_locked not_empty show ?thesis by simp
      next
        case False
        with step not_locked not_empty
        have "loop t key nid (next_bucket (capacity t) h) = Some r" by simp
        then show ?thesis by (rule IH)
      qed
    qed
  qed
qed

lemma insert_loop_bucket:
  assumes "insert_loop t key nid h = Some r" and "h < capacity t"
  shows "snd r < capacity t"
proof -
  have "h < capacity t \<longrightarrow> snd r < capacity t"
  proof (rule insert_loop.raw_induct
      [where P = "\<lambda>t key nid h r. h < capacity t \<longrightarrow> snd r < capacity t", OF _ assms(1)])
    fix loop :: "hash_table \<Rightarrow> int list \<Rightarrow> nat \<Rightarrow> nat \<Rightarrow> (hash_table \<times> nat) option"
    fix t key nid h r
    assume IH: "\<And>t key nid h r. loop t key nid h = Some r \<Longrightarrow>
        h < capacity t \<longrightarrow> snd r < capacity t"
    assume step: "(if entry2nid t ! h = - 2 then loop t key nid (next_bucket (capacity t) h)
      else if entry2nid t ! h = - 1
        then Some (t\<lparr>keys := write_key (ht_pd t) key nid (keys t),
                      entry2nid := (entry2nid t)[h := int nid]\<rparr>, h)
        else if key_match (ht_pd t) (keys t) (entry2nid t ! h) key then Some (t, h)
        else loop t key nid (next_bucket (capacity t) h)) = Some r"
    show "h < capacity t \<longrightarrow> snd r < capacity t"
    proof
      assume h: "h < capacity t"
      consider (probe) "loop t key nid (next_bucket (capacity t) h) = Some r" | (stop) "snd r = h"
        using step by (cases "entry2nid t ! h = - 2"; cases "entry2nid t ! h = - 1";
            cases "key_match (ht_pd t) (keys t) (entry2nid t ! h) key") auto
      then show "snd r < capacity t"
      proof cases
        case probe
        then show ?thesis using IH next_bucket_less [OF h] by blast
      next
        case stop
        then show ?thesis using h by simp
      qed
    qed
  qed
  with assms(2) show ?thesis by simp
qed

lemma insert_ht_Some:
  assumes "insert_ht t key nid = Some (t', h)"
  shows "h < capacity t"
    and "(entry2nid t ! h = - 1 \<and> t' = claimed t key nid h)
       \<or> (entry2nid t ! h \<noteq> - 1 \<and> entry2nid t ! h \<noteq> - 2
            \<and> key_match (ht_pd t) (keys t) (entry2nid t ! h) key \<and> t' = t)"
proof -
  from assms have cap: "0 < capacity t"
    and loop: "insert_loop t key nid (hash (ht_pd t) key mod capacity t) = Some (t', h)"
    unfolding insert_ht_def by (simp_all split: if_splits)
  show "h < capacity t"
    using insert_loop_bucket [OF loop] cap by simp
  show "(entry2nid t ! h = - 1 \<and> t' = claimed t key nid h)
       \<or> (entry2nid t ! h \<noteq> - 1 \<and> entry2nid t ! h \<noteq> - 2
            \<and> key_match (ht_pd t) (keys t) (entry2nid t ! h) key \<and> t' = t)"
    using insert_loop_Some [OF loop] by simp
qed

text \<open>Probing from \<open>h\<close> meets an empty bucket \<open>d\<close> steps ahead after at most \<open>d + 1\<close> probes.\<close>

lemma insert_fuel_reaches:
  assumes "0 < capacity t" and "h < capacity t"
    and "entry2nid t ! ((h + d) mod capacity t) = - 1" and "d < n"
  shows "\<exists>r. insert_fuel n t key nid h = Some r"
  using assms
proof (induction d arbitrary: h n)
  case 0
  then obtain n' where n: "n = Suc n'" by (cases n) simp_all
  from 0 show ?case unfolding n by simp
next
  case (Suc d)
  then obtain n' where n: "n = Suc n'" by (cases n) simp_all
  let ?h' = "next_bucket (capacity t) h"
  have h': "?h' < capacity t" using Suc.prems(2) by (rule next_bucket_less)
  have "(?h' + d) mod capacity t = (h + Suc d) mod capacity t"
    unfolding next_bucket_mod [OF Suc.prems(2)] by (simp add: mod_add_left_eq)
  then have empty: "entry2nid t ! ((?h' + d) mod capacity t) = - 1"
    using Suc.prems(3) by simp
  have "d < n'" using Suc.prems(4) n by simp
  from Suc.IH [OF Suc.prems(1) h' empty this] obtain r where "insert_fuel n' t key nid ?h' = Some r"
    by blast
  then show ?case unfolding n by simp
qed

lemma insert_fuel_total:
  assumes "0 < capacity t" and "h < capacity t" and "b < capacity t" and "entry2nid t ! b = - 1"
  shows "\<exists>r. insert_fuel (capacity t) t key nid h = Some r"
proof -
  define d where "d = (b + capacity t - h) mod capacity t"
  have "(h + d) mod capacity t = (h + (b + capacity t - h)) mod capacity t"
    unfolding d_def by (simp add: mod_add_right_eq)
  also have "\<dots> = (b + capacity t) mod capacity t"
    using assms(2) by simp
  also have "\<dots> = b"
    using assms(3) by simp
  finally have "entry2nid t ! ((h + d) mod capacity t) = - 1"
    using assms(4) by simp
  moreover have "d < capacity t"
    unfolding d_def using assms(1) by simp
  ultimately show ?thesis
    by (rule insert_fuel_reaches [OF assms(1,2)])
qed

text \<open>A run of \<open>insert\<close> calls one after the other, as the splat stage issues them.\<close>

fun insert_all :: "hash_table \<Rightarrow> (int list \<times> nat) list \<Rightarrow> hash_table option" where
  "insert_all t [] = Some t"
| "insert_all t (q # qs) =
     (case insert_ht t (fst q) (snd q) of None \<Rightarrow> None | Some r \<Rightarrow> insert_all (fst r) qs)"

definition occupied :: "hash_table \<Rightarrow> nat" where
  "occupied t = length (filter (\<lambda>x. x \<noteq> - 1) (entry2nid t))"

lemma length_filter_update:
  "length (filter P (xs[i := v])) \<le> Suc (length (filter P xs))"
proof (induction xs arbitrary: i)
  case Nil
  then show ?case by simp
next
  case (Cons x xs)
  show ?case
  proof (cases i)
    case 0
    then show ?thesis by simp
  next
    case (Suc j)
    then show ?thesis using Cons.IH [of j] by simp
  qed
qed

lemma insert_ht_frame:
  assumes "insert_ht t key nid = Some (t', h)"
  shows "capacity t' = capacity t" and "ht_pd t' = ht_pd t" and "ht_vd t' = ht_vd t"
    and "length (entry2nid t') = length (entry2nid t)"
    and "occupied t' \<le> Suc (occupied t)"
    and "vals t' = vals t"
  using insert_ht_Some(2) [OF assms]
  by (auto simp: claimed_def occupied_def length_filter_update)

lemma insert_all_frame:
  assumes "insert_all t qs = Some t'"
  shows "capacity t' = capacity t \<and> ht_pd t' = ht_pd t
       \<and> length (entry2nid t') = length (entry2nid t)
       \<and> occupied t' \<le> occupied t + length qs"
  using assms
proof (induction qs arbitrary: t)
  case Nil
  then show ?case by simp
next
  case (Cons q qs)
  from Cons.prems obtain t1 h where first: "insert_ht t (fst q) (snd q) = Some (t1, h)"
    and rest: "insert_all t1 qs = Some t'"
    by (auto split: option.splits)
  from Cons.IH [OF rest] insert_ht_frame [OF first] show ?case by simp
qed

lemma empty_bucket_exists:
  assumes "occupied t < length (entry2nid t)"
  shows "\<exists>b < length (entry2nid t). entry2nid t ! b = - 1"
proof (rule ccontr)
  assume "\<not> (\<exists>b < length (entry2nid t). entry2nid t ! b = - 1)"
  then have "\<forall>x \<in> set (entry2nid t). x \<noteq> - 1"
    by (auto simp: in_set_conv_nth)
  then have "filter (\<lambda>x. x \<noteq> - 1) (entry2nid t) = entry2nid t"
    by (simp add: filter_id_conv)
  with assms show False by (simp add: occupied_def)
qed

lemma occupied_HashTableGPU: "occupied (HashTableGPU pd vd N) = 0"
  by (simp add: occupied_def HashTableGPU_def)

section \<open>Facts about the splat stage\<close>

lemma length_fold_update: "length (fold (\<lambda>i vs. vs[g i := f vs i]) js vs) = length vs"
  by (induction js arbitrary: vs) simp_all

lemma length_atomic_add_row [simp]: "length (atomic_add_row vd base w val vs) = length vs"
  unfolding atomic_add_row_def by (rule length_fold_update)

lemma nth_fold_add_shift:
  fixes c :: "nat \<Rightarrow> real"
  assumes "distinct js"
  shows "fold (\<lambda>i vs. vs[base + i := vs ! (base + i) + c i]) js vs ! k =
     (if k < length vs \<and> k \<in> (\<lambda>i. base + i) ` set js then vs ! k + c (k - base) else vs ! k)"
  using assms
proof (induction js arbitrary: vs)
  case Nil
  then show ?case by simp
next
  case (Cons j js)
  let ?vs = "vs[base + j := vs ! (base + j) + c j]"
  have d: "distinct js" "j \<notin> set js" using Cons.prems by simp_all
  have notin: "base + j \<notin> (\<lambda>i. base + i) ` set js" using d(2) by auto
  have IH: "fold (\<lambda>i vs. vs[base + i := vs ! (base + i) + c i]) js ?vs ! k =
     (if k < length ?vs \<and> k \<in> (\<lambda>i. base + i) ` set js then ?vs ! k + c (k - base) else ?vs ! k)"
    by (rule Cons.IH [OF d(1)])
  show ?case
  proof (cases "k = base + j")
    case True
    then show ?thesis
      unfolding fold_simps o_apply IH using notin
      by (cases "base + j < length vs") (simp_all add: list_update_beyond)
  next
    case False
    then have "?vs ! k = vs ! k" by simp
    then show ?thesis
      unfolding fold_simps o_apply IH using False by auto
  qed
qed

lemma nth_atomic_add_row:
  "atomic_add_row vd base w val vs ! k =
     (if k < length vs \<and> base \<le> k \<and> k < base + vd then vs ! k + w * val ! (k - base) else vs ! k)"
proof -
  have "k \<in> (\<lambda>i. base + i) ` set [0..<vd] \<longleftrightarrow> base \<le> k \<and> k < base + vd"
    using in_shift_upt [of k base 0 vd] by simp
  then show ?thesis
    unfolding atomic_add_row_def
    using nth_fold_add_shift [of "[0..<vd]" base "\<lambda>i. w * val ! i" vs k] by simp
qed

lemma slots_disjoint:
  fixes a b vd i j :: nat
  assumes "a \<noteq> b" and "i < vd"
  shows "\<not> (a * vd \<le> b * vd + i \<and> b * vd + i < a * vd + vd)"
proof
  assume range: "a * vd \<le> b * vd + i \<and> b * vd + i < a * vd + vd"
  have "a = b"
    by (rule row_index_unique [of i vd a b]) (use assms(2) range in simp_all)
  with assms(1) show False by simp
qed

lemma insert_ht_fuel:
  assumes "0 < capacity t"
    and "insert_fuel n t key nid (hash (ht_pd t) key mod capacity t) = Some r"
  shows "insert_ht t key nid = Some r"
  unfolding insert_ht_def using assms(1) insert_fuel_loop [OF assms(2)] by simp

lemma splat_corner_eval:
  assumes "corner_key pd canon p r = key"
    and "n * (pd + 1) + r = nid"
    and "insert_ht t key nid = Some (t1, h)"
    and "lookupValue t1 h = Some base"
    and "nid < length rp"
  shows "splat_corner pd vd canon p val n r (t, rp) =
     Some (t1\<lparr>vals := atomic_add_row vd base (matB p ! r) val (vals t1)\<rparr>,
           rp[nid := \<lparr>entry = h, weight = matB p ! r\<rparr>])"
  using assms by (simp add: splat_corner_def)

lemma splat_launch_eq:
  assumes "length ref = lat_N L"
  shows "splat_launch L src ref =
     fold_option (splat_kernel (scaleFactor L) (canonical L) src ref) [0..<lat_N L]
       (hashTable L, replay L)"
proof -
  have idle: "fold_option (splat_kernel (scaleFactor L) (canonical L) src ref) [lat_N L..<G] s = Some s"
    for s G
    by (rule fold_option_idle) (simp add: splat_kernel_def assms)
  show ?thesis
    unfolding splat_launch_def launch_threads_split [OF order_refl] fold_option_append
    by (simp add: idle split: option.splits)
qed

lemma canonical_table_1: "canonical_table 1 = [0, 0, 1, - 1]"
  by (simp add: canonical_table_def canonical_row_def narrow16_def)

lemma geometry_origin_1:
  "splat_geometry 1 [0] sf =
     Some \<lparr>matE = [0, 0], matY = [0, 0], matR = [0, 1], matB = [1, 0, 0]\<rparr>"
  by (simp add: splat_geometry_def corrected_point_def ranked_point_def round_stage_def
      round_step_def rank_stage_def rank_pair_def remainder_def correct_stage_def
      bary_stage_def bary_step_def elevate_def zero_point_def c_round_def cast_int16_def
      c_div_def narrow16_def Let_def)

lemma single_point_corner_0:
  "splat_corner 1 1 [0, 0, 1, - 1]
      \<lparr>matE = [0, 0], matY = [0, 0], matR = [0, 1], matB = [1, 0, 0]\<rparr> [v] 0 0
      (\<lparr>ht_pd = 1, ht_vd = 1, ht_N = 1, capacity = 2, keys = [0, 0], vals = [0, 0],
         entry2nid = [- 1, - 1]\<rparr>,
       [\<lparr>entry = 0, weight = 0\<rparr>, \<lparr>entry = 0, weight = 0\<rparr>]) =
     Some (\<lparr>ht_pd = 1, ht_vd = 1, ht_N = 1, capacity = 2, keys = [0, 0], vals = [v, 0],
         entry2nid = [0, - 1]\<rparr>,
       [\<lparr>entry = 0, weight = 1\<rparr>, \<lparr>entry = 0, weight = 0\<rparr>])"
proof -
  let ?p = "\<lparr>matE = [0, 0], matY = [0, 0], matR = [0, 1], matB = [1, 0, 0]\<rparr>"
  let ?t = "\<lparr>ht_pd = 1, ht_vd = 1, ht_N = 1, capacity = 2, keys = [0, 0], vals = [0, 0],
         entry2nid = [- 1, - 1]\<rparr>"
  let ?t1 = "\<lparr>ht_pd = 1, ht_vd = 1, ht_N = 1, capacity = 2, keys = [0, 0], vals = [0, 0],
         entry2nid = [0, - 1]\<rparr>"
  let ?rp = "[\<lparr>entry = 0, weight = 0\<rparr>, \<lparr>entry = 0, weight = 0\<rparr>]"
  have key: "corner_key 1 [0, 0, 1, - 1] ?p 0 = [0]"
    by (simp add: corner_key_def narrow16_def)
  have fuel: "insert_fuel 1 ?t [0] 0 (hash (ht_pd ?t) [0] mod capacity ?t) = Some (?t1, 0)"
    by (simp add: hash_def write_key_def)
  have ins: "insert_ht ?t [0] 0 = Some (?t1, 0)"
    by (rule insert_ht_fuel [OF _ fuel]) simp
  have look: "lookupValue ?t1 0 = Some 0"
    by (simp add: lookupValue_def)
  have "splat_corner 1 1 [0, 0, 1, - 1] ?p [v] 0 0 (?t, ?rp) =
      Some (?t1\<lparr>vals := atomic_add_row 1 0 (matB ?p ! 0) [v] (vals ?t1)\<rparr>,
            ?rp[0 := \<lparr>entry = 0, weight = matB ?p ! 0\<rparr>])"
    by (rule splat_corner_eval [OF key _ ins look]) simp_all
  then show ?thesis
    by (simp add: atomic_add_row_def)
qed

lemma single_point_corner_1:
  "splat_corner 1 1 [0, 0, 1, - 1]
      \<lparr>matE = [0, 0], matY = [0, 0], matR = [0, 1], matB = [1, 0, 0]\<rparr> [v] 0 1
      (\<lparr>ht_pd = 1, ht_vd = 1, ht_N = 1, capacity = 2, keys = [0, 0], vals = [v, 0],
         entry2nid = [0, - 1]\<rparr>,
       [\<lparr>entry = 0, weight = 1\<rparr>, \<lparr>entry = 0, weight = 0\<rparr>]) =
     Some (\<lparr>ht_pd = 1, ht_vd = 1, ht_N = 1, capacity = 2, keys = [0, 1], vals = [v, 0],
         entry2nid = [0, 1]\<rparr>,
       [\<lparr>entry = 0, weight = 1\<rparr>, \<lparr>entry = 1, weight = 0\<rparr>])"
proof -
  let ?p = "\<lparr>matE = [0, 0], matY = [0, 0], matR = [0, 1], matB = [1, 0, 0]\<rparr>"
  let ?t = "\<lparr>ht_pd = 1, ht_vd = 1, ht_N = 1, capacity = 2, keys = [0, 0], vals = [v, 0],
         entry2nid = [0, - 1]\<rparr>"
  let ?t1 = "\<lparr>ht_pd = 1, ht_vd = 1, ht_N = 1, capacity = 2, keys = [0, 1], vals = [v, 0],
         entry2nid = [0, 1]\<rparr>"
  let ?rp = "[\<lparr>entry = 0, weight = 1\<rparr>, \<lparr>entry = 0, weight = 0\<rparr>]"
  have key: "corner_key 1 [0, 0, 1, - 1] ?p 1 = [1]"
    by (simp add: corner_key_def narrow16_def)
  have fuel: "insert_fuel 1 ?t [1] 1 (hash (ht_pd ?t) [1] mod capacity ?t) = Some (?t1, 1)"
    by (simp add: hash_def write_key_def)
  have ins: "insert_ht ?t [1] 1 = Some (?t1, 1)"
    by (rule insert_ht_fuel [OF _ fuel]) simp
  have look: "lookupValue ?t1 1 = Some 1"
    by (simp add: lookupValue_def)
  have "splat_corner 1 1 [0, 0, 1, - 1] ?p [v] 0 1 (?t, ?rp) =
      Some (?t1\<lparr>vals := atomic_add_row 1 1 (matB ?p ! 1) [v] (vals ?t1)\<rparr>,
            ?rp[1 := \<lparr>entry = 1, weight = matB ?p ! 1\<rparr>])"
    by (rule splat_corner_eval [OF key _ ins look]) simp_all
  then show ?thesis
    by (simp add: atomic_add_row_def)
qed

lemma single_point_splat_launch:
  "splat_launch (PermutohedralLatticeGPU 1 1 1) [[v]] [[0]] =
     Some (\<lparr>ht_pd = 1, ht_vd = 1, ht_N = 1, capacity = 2, keys = [0, 1], vals = [v, 0],
         entry2nid = [0, 1]\<rparr>,
       [\<lparr>entry = 0, weight = 1\<rparr>, \<lparr>entry = 1, weight = 0\<rparr>])"
proof -
  have L: "PermutohedralLatticeGPU 1 1 1 =
      \<lparr>lat_pd = 1, lat_vd = 1, lat_N = 1, scaleFactor = scaleFactor_table 1,
       canonical = [0, 0, 1, - 1],
       hashTable = \<lparr>ht_pd = 1, ht_vd = 1, ht_N = 1, capacity = 2, keys = [0, 0], vals = [0, 0],
         entry2nid = [- 1, - 1]\<rparr>,
       replay = [\<lparr>entry = 0, weight = 0\<rparr>, \<lparr>entry = 0, weight = 0\<rparr>]\<rparr>"
    by (simp add: PermutohedralLatticeGPU_def HashTableGPU_def canonical_table_1 [unfolded One_nat_def] numeral_2_eq_2)
  have "splat_launch (PermutohedralLatticeGPU 1 1 1) [[v]] [[0]] =
      fold_option (splat_kernel (scaleFactor (PermutohedralLatticeGPU 1 1 1))
          (canonical (PermutohedralLatticeGPU 1 1 1)) [[v]] [[0]])
        [0..<lat_N (PermutohedralLatticeGPU 1 1 1)]
        (hashTable (PermutohedralLatticeGPU 1 1 1), replay (PermutohedralLatticeGPU 1 1 1))"
    by (rule splat_launch_eq) (simp add: PermutohedralLatticeGPU_def)
  also have "\<dots> = Some (\<lparr>ht_pd = 1, ht_vd = 1, ht_N = 1, capacity = 2, keys = [0, 1], vals = [v, 0],
         entry2nid = [0, 1]\<rparr>,
       [\<lparr>entry = 0, weight = 1\<rparr>, \<lparr>entry = 1, weight = 0\<rparr>])"
    unfolding L
    by (simp add: splat_kernel_def geometry_origin_1 [unfolded One_nat_def]
        single_point_corner_0 [unfolded One_nat_def] single_point_corner_1 [unfolded One_nat_def])
  finally show ?thesis .
qed

lemma lookup_fuel_loop:
  "lookup_fuel n t key create h = Some r \<Longrightarrow> lookup_loop t key create h = Some r"
proof (induction n arbitrary: h)
  case 0
  then show ?case by simp
next
  case (Suc n)
  show ?case
    using Suc.prems Suc.IH
    by (subst lookup_loop.simps) (auto split: if_splits option.splits)
qed

lemma lookup_fuel_eval:
  assumes "0 < cu_capacity t"
    and "lookup_fuel n t key create (hash (cu_pd t) key mod cu_capacity t) = Some r"
  shows "lookup t key create = Some r"
  unfolding lookup_def using assms(1) lookup_fuel_loop [OF assms(2)] by simp

lemma splat_corner_cu_eval:
  assumes "corner_key pd canon p r = key"
    and "lookup t key True = Some (t1, Some base)"
    and "base + vd \<le> length (cu_values t1)"
  shows "splat_corner_cu pd vd canon p val r t =
     Some (t1\<lparr>cu_values := atomic_add_row vd base (matB p ! r) val (cu_values t1)\<rparr>)"
  using assms by (simp add: splat_corner_cu_def)

lemma splat_launch_cu_eq:
  assumes "length ref = cu_lat_N L"
  shows "splat_launch_cu L src ref =
     fold_option (splat_kernel_cu (cu_scaleFactor L) (cu_canonical L) src ref) [0..<cu_lat_N L]
       (cu_hashTable L)"
proof -
  have idle: "fold_option (splat_kernel_cu (cu_scaleFactor L) (cu_canonical L) src ref)
      [cu_lat_N L..<G] s = Some s" for s G
    by (rule fold_option_idle) (simp add: splat_kernel_cu_def assms)
  show ?thesis
    unfolding splat_launch_cu_def launch_threads_split [OF order_refl] fold_option_append
    by (simp add: idle split: option.splits)
qed

lemma single_point_corner_cu_0:
  "splat_corner_cu 1 1 [0, 0, 1, - 1]
      \<lparr>matE = [0, 0], matY = [0, 0], matR = [0, 1], matB = [1, 0, 0]\<rparr> [v] 0
      \<lparr>cu_pd = 1, cu_vd = 1, cu_N = 1, cu_capacity = 2, cu_keys = [0, 0], cu_values = [0, 0],
       filled = [0], entryIdx = [- 1, - 1], slotLock = [0]\<rparr> =
     Some \<lparr>cu_pd = 1, cu_vd = 1, cu_N = 1, cu_capacity = 2, cu_keys = [0, 0], cu_values = [v, 0],
       filled = [1], entryIdx = [0, - 1], slotLock = [0]\<rparr>"
proof -
  let ?p = "\<lparr>matE = [0, 0], matY = [0, 0], matR = [0, 1], matB = [1, 0, 0]\<rparr>"
  let ?t = "\<lparr>cu_pd = 1, cu_vd = 1, cu_N = 1, cu_capacity = 2, cu_keys = [0, 0], cu_values = [0, 0],
       filled = [0], entryIdx = [- 1, - 1], slotLock = [0]\<rparr>"
  let ?t1 = "\<lparr>cu_pd = 1, cu_vd = 1, cu_N = 1, cu_capacity = 2, cu_keys = [0, 0], cu_values = [0, 0],
       filled = [1], entryIdx = [0, - 1], slotLock = [0]\<rparr>"
  have key: "corner_key 1 [0, 0, 1, - 1] ?p 0 = [0]"
    by (simp add: corner_key_def narrow16_def)
  have fuel: "lookup_fuel 1 ?t [0] True (hash (cu_pd ?t) [0] mod cu_capacity ?t) = Some (?t1, Some 0)"
    by (simp add: hash_def write_key_def next_free_slot_def)
  have look: "lookup ?t [0] True = Some (?t1, Some 0)"
    by (rule lookup_fuel_eval [OF _ fuel]) simp
  have "splat_corner_cu 1 1 [0, 0, 1, - 1] ?p [v] 0 ?t =
      Some (?t1\<lparr>cu_values := atomic_add_row 1 0 (matB ?p ! 0) [v] (cu_values ?t1)\<rparr>)"
    by (rule splat_corner_cu_eval [OF key look]) simp
  then show ?thesis
    by (simp add: atomic_add_row_def)
qed

lemma single_point_corner_cu_1:
  "splat_corner_cu 1 1 [0, 0, 1, - 1]
      \<lparr>matE = [0, 0], matY = [0, 0], matR = [0, 1], matB = [1, 0, 0]\<rparr> [v] 1
      \<lparr>cu_pd = 1, cu_vd = 1, cu_N = 1, cu_capacity = 2, cu_keys = [0, 0], cu_values = [v, 0],
       filled = [1], entryIdx = [0, - 1], slotLock = [0]\<rparr> =
     Some \<lparr>cu_pd = 1, cu_vd = 1, cu_N = 1, cu_capacity = 2, cu_keys = [0, 1], cu_values = [v, 0],
       filled = [2], entryIdx = [0, 1], slotLock = [0]\<rparr>"
proof -
  let ?p = "\<lparr>matE = [0, 0], matY = [0, 0], matR = [0, 1], matB = [1, 0, 0]\<rparr>"
  let ?t = "\<lparr>cu_pd = 1, cu_vd = 1, cu_N = 1, cu_capacity = 2, cu_keys = [0, 0], cu_values = [v, 0],
       filled = [1], entryIdx = [0, - 1], slotLock = [0]\<rparr>"
  let ?t1 = "\<lparr>cu_pd = 1, cu_vd = 1, cu_N = 1, cu_capacity = 2, cu_keys = [0, 1], cu_values = [v, 0],
       filled = [2], entryIdx = [0, 1], slotLock = [0]\<rparr>"
  have key: "corner_key 1 [0, 0, 1, - 1] ?p 1 = [1]"
    by (simp add: corner_key_def narrow16_def)
  have fuel: "lookup_fuel 1 ?t [1] True (hash (cu_pd ?t) [1] mod cu_capacity ?t) = Some (?t1, Some 1)"
    by (simp add: hash_def write_key_def next_free_slot_def)
  have look: "lookup ?t [1] True = Some (?t1, Some 1)"
    by (rule lookup_fuel_eval [OF _ fuel]) simp
  have "splat_corner_cu 1 1 [0, 0, 1, - 1] ?p [v] 1 ?t =
      Some (?t1\<lparr>cu_values := atomic_add_row 1 1 (matB ?p ! 1) [v] (cu_values ?t1)\<rparr>)"
    by (rule splat_corner_cu_eval [OF key look]) simp
  then show ?thesis
    by (simp add: atomic_add_row_def)
qed

lemma single_point_splat_launch_cu:
  "splat_launch_cu (PermutohedralLatticeGPU_cu 1 1 1) [[v]] [[0]] =
     Some \<lparr>cu_pd = 1, cu_vd = 1, cu_N = 1, cu_capacity = 2, cu_keys = [0, 1], cu_values = [v, 0],
       filled = [2], entryIdx = [0, 1], slotLock = [0]\<rparr>"
proof -
  have L: "PermutohedralLatticeGPU_cu 1 1 1 =
      \<lparr>cu_lat_pd = 1, cu_lat_vd = 1, cu_lat_N = 1, cu_scaleFactor = scaleFactor_table 1,
       cu_canonical = [0, 0, 1, - 1],
       cu_hashTable = \<lparr>cu_pd = 1, cu_vd = 1, cu_N = 1, cu_capacity = 2, cu_keys = [0, 0],
         cu_values = [0, 0], filled = [0], entryIdx = [- 1, - 1], slotLock = [0]\<rparr>\<rparr>"
    by (simp add: PermutohedralLatticeGPU_cu_def HashTableGPU_cu_def
        canonical_table_1 [unfolded One_nat_def] numeral_2_eq_2)
  have "splat_launch_cu (PermutohedralLatticeGPU_cu 1 1 1) [[v]] [[0]] =
      fold_option (splat_kernel_cu (cu_scaleFactor (PermutohedralLatticeGPU_cu 1 1 1))
          (cu_canonical (PermutohedralLatticeGPU_cu 1 1 1)) [[v]] [[0]])
        [0..<cu_lat_N (PermutohedralLatticeGPU_cu 1 1 1)]
        (cu_hashTable (PermutohedralLatticeGPU_cu 1 1 1))"
    by (rule splat_launch_cu_eq) (simp add: PermutohedralLatticeGPU_cu_def)
  also have "\<dots> = Some \<lparr>cu_pd = 1, cu_vd = 1, cu_N = 1, cu_capacity = 2, cu_keys = [0, 1],
       cu_values = [v, 0], filled = [2], entryIdx = [0, 1], slotLock = [0]\<rparr>"
    unfolding L
    by (simp add: splat_kernel_cu_def geometry_origin_1 [unfolded One_nat_def]
        single_point_corner_cu_0 [unfolded One_nat_def]
        single_point_corner_cu_1 [unfolded One_nat_def])
  finally show ?thesis .
qed

lemma gpu_mallocs_rejected:
  assumes "\<not> ok n" and "Some n \<in> set ns"
  shows "Exit \<in> set (gpu_mallocs ok ns) \<or> Undefined \<in> set (gpu_mallocs ok ns)"
  using assms(2)
proof (induction ns)
  case Nil
  then show ?case by simp
next
  case (Cons a ns)
  show ?case
  proof (cases a)
    case None
    then show ?thesis by simp
  next
    case (Some m)
    show ?thesis
    proof (cases "ok m")
      case True
      with assms(1) have "m \<noteq> n" by blast
      with Cons.prems Some have "Some n \<in> set ns" by simp
      from Cons.IH [OF this] Some True show ?thesis by auto
    next
      case False
      with Some show ?thesis by simp
    qed
  qed
qed

lemma gpu_mallocs_no_launch: "\<not> list_ex is_launch (gpu_mallocs ok ns)"
proof (induction ns)
  case Nil
  show ?case by simp
next
  case (Cons a ns)
  then show ?case by (cases a) simp_all
qed

lemma gpu_mallocs_granted:
  assumes "list_all (granted ok) ns"
  shows "gpu_mallocs ok ns = map (\<lambda>s. Malloc (the s)) ns"
  using assms
proof (induction ns)
  case Nil
  show ?case by simp
next
  case (Cons a ns)
  then show ?case by (cases a) simp_all
qed

lemma zero_size_requested:
  assumes "pd = 0 \<or> vd = 0"
  shows "Some 0 \<in> set (malloc_sizes w pd vd N)"
  using assms by (auto simp: malloc_sizes_def Let_def)

lemma zero_dimension_exits:
  assumes "\<not> ok 0" and "pd = 0 \<or> vd = 0"
  shows "last (gpu_mallocs ok (malloc_sizes w pd vd N)) = Exit"
    and "Exit \<in> set (gpu_mallocs ok (malloc_sizes w pd vd N))"
  using assms by (auto simp: malloc_sizes_def Let_def)

lemma granted_launches:
  assumes "list_all (granted ok) ns"
  shows "Exit \<notin> set (gpu_mallocs ok ns)" and "Undefined \<notin> set (gpu_mallocs ok ns)"
  unfolding gpu_mallocs_granted [OF assms] by auto

lemma mismatched_rows_run:
  "permutohedral_cuda_filter_host nonempty_request 4 [[1], [1]] [[0]] =
     [Malloc 8, Malloc 16, Malloc 16, Malloc 4, Malloc 8, Malloc 64, Launch_splat 1 1024]"
  by (simp add: permutohedral_cuda_filter_host_def row_size_def malloc_sizes_def
      nonempty_request_def Let_def)

lemma no_channel_run:
  "permutohedral_cuda_filter_host nonempty_request 4 [[]] [[0]] = [Malloc 4, Exit]"
  by (simp add: permutohedral_cuda_filter_host_def row_size_def malloc_sizes_def
      nonempty_request_def Let_def)

lemma nth_fold_apply:
  assumes "k < length out" and "distinct js"
  shows "fold (\<lambda>j out. out[j := g j (out ! j)]) js out ! k =
     (if k \<in> set js then g k (out ! k) else out ! k)"
  using assms
proof (induction js arbitrary: out)
  case Nil
  then show ?case by simp
next
  case (Cons j js)
  have len: "k < length (out[j := g j (out ! j)])" using Cons.prems(1) by simp
  have d: "distinct js" "j \<notin> set js" using Cons.prems(2) by simp_all
  show ?case
    unfolding fold_simps set_simps insert_iff
    using Cons.IH [OF len d(1)] d(2) Cons.prems(1)
    by (cases "k = j") (auto simp: nth_list_update)
qed

text \<open>What corner \<open>r\<close> of point \<open>n\<close> contributes to channel \<open>j\<close>.\<close>

definition slice_term ::
  "(real \<Rightarrow> real) \<Rightarrow> hash_table \<Rightarrow> replay_entry list \<Rightarrow> nat \<Rightarrow> nat \<Rightarrow> nat \<Rightarrow> real" where
  "slice_term rnd t rp n r j =
     rnd (rnd (weight (rp ! (n * (ht_pd t + 1) + r))
                 * vals t ! (nat (entry2nid t ! entry (rp ! (n * (ht_pd t + 1) + r))) * ht_vd t + j))
          / slice_divisor (ht_pd t))"

text \<open>The replay entry of corner \<open>r\<close> of point \<open>n\<close> names a bucket whose slot can be read.\<close>

definition slot_readable :: "hash_table \<Rightarrow> replay_entry list \<Rightarrow> nat \<Rightarrow> nat \<Rightarrow> bool" where
  "slot_readable t rp n r =
     (n * (ht_pd t + 1) + r < length rp
      \<and> entry (rp ! (n * (ht_pd t + 1) + r)) < length (entry2nid t)
      \<and> 0 \<le> entry2nid t ! entry (rp ! (n * (ht_pd t + 1) + r))
      \<and> entry2nid t ! entry (rp ! (n * (ht_pd t + 1) + r)) * int (ht_vd t) < 2 ^ 31
      \<and> nat (entry2nid t ! entry (rp ! (n * (ht_pd t + 1) + r))) * ht_vd t + ht_vd t
          \<le> length (vals t))"

lemma slice_corner_eq:
  assumes "slot_readable t rp n r" and "ht_vd t \<le> length out"
  shows "slice_corner rnd t rp n r out =
     Some (fold (\<lambda>j out. out[j := rnd (out ! j + slice_term rnd t rp n r j)]) [0..<ht_vd t] out)"
  using assms unfolding slot_readable_def slice_corner_def lookupValue_def slice_term_def
  by simp

lemma slice_corner_Some:
  assumes "slice_corner rnd t rp n r out = Some out'"
  shows "slot_readable t rp n r" and "ht_vd t \<le> length out"
  using assms unfolding slot_readable_def slice_corner_def lookupValue_def
  by (auto split: if_splits option.splits)

lemma slice_corner_nth:
  assumes "slice_corner rnd t rp n r out = Some out'" and "j < ht_vd t"
  shows "out' ! j = rnd (out ! j + slice_term rnd t rp n r j)" and "length out' = length out"
proof -
  note ok = slice_corner_Some [OF assms(1)]
  from assms(1) have out': "out' =
      fold (\<lambda>j out. out[j := rnd (out ! j + slice_term rnd t rp n r j)]) [0..<ht_vd t] out"
    unfolding slice_corner_eq [OF ok] by simp
  show "length out' = length out" unfolding out' by simp
  have "j < length out" "j \<in> set [0..<ht_vd t]" using assms(2) ok(2) by simp_all
  then show "out' ! j = rnd (out ! j + slice_term rnd t rp n r j)"
    unfolding out'
    using nth_fold_apply [of j out "[0..<ht_vd t]" "\<lambda>j x. rnd (x + slice_term rnd t rp n r j)"]
    by simp
qed

lemma slice_corner_fold:
  assumes "fold_option (slice_corner rnd t rp n) rs out = Some out'" and "j < ht_vd t"
  shows "out' ! j = fold (\<lambda>r acc. rnd (acc + slice_term rnd t rp n r j)) rs (out ! j)
       \<and> length out' = length out"
  using assms
proof (induction rs arbitrary: out)
  case Nil
  then show ?case by simp
next
  case (Cons r rs)
  from Cons.prems(1) obtain m where m: "slice_corner rnd t rp n r out = Some m"
    and rest: "fold_option (slice_corner rnd t rp n) rs m = Some out'"
    by (auto split: option.splits)
  note first = slice_corner_nth [OF m Cons.prems(2)]
  from Cons.IH [OF rest Cons.prems(2)] first show ?case by simp
qed

lemma slice_corner_fold_length:
  assumes "fold_option (slice_corner rnd t rp n) rs out = Some out'"
  shows "length out' = length out"
  using assms
proof (induction rs arbitrary: out)
  case Nil
  then show ?case by simp
next
  case (Cons r rs)
  from Cons.prems obtain m where m: "slice_corner rnd t rp n r out = Some m"
    and rest: "fold_option (slice_corner rnd t rp n) rs m = Some out'"
    by (auto split: option.splits)
  from m have "length m = length out"
    unfolding slice_corner_eq [OF slice_corner_Some [OF m]] by auto
  with Cons.IH [OF rest] show ?case by simp
qed

lemma slice_corner_fold_total:
  assumes "\<And>r. r \<in> set rs \<Longrightarrow> slot_readable t rp n r" and "ht_vd t \<le> length out"
  shows "\<exists>out'. fold_option (slice_corner rnd t rp n) rs out = Some out'"
  using assms
proof (induction rs arbitrary: out)
  case Nil
  show ?case by simp
next
  case (Cons r rs)
  have r: "slot_readable t rp n r" by (rule Cons.prems(1)) simp
  let ?m = "fold (\<lambda>j out. out[j := rnd (out ! j + slice_term rnd t rp n r j)]) [0..<ht_vd t] out"
  have m: "slice_corner rnd t rp n r out = Some ?m"
    by (rule slice_corner_eq [OF r Cons.prems(2)])
  have "ht_vd t \<le> length ?m" using Cons.prems(2) by simp
  moreover have "\<And>r. r \<in> set rs \<Longrightarrow> slot_readable t rp n r"
    using Cons.prems(1) by simp
  ultimately obtain out' where "fold_option (slice_corner rnd t rp n) rs ?m = Some out'"
    using Cons.IH by blast
  with m show ?case by simp
qed

lemma slice_kernel_frame:
  assumes "slice_kernel rnd t rp m res = Some res'"
  shows "length res' = length res" and "n \<noteq> m \<Longrightarrow> res' ! n = res ! n"
  using assms unfolding slice_kernel_def
  by (auto split: if_splits option.splits)

lemma slice_threads_frame:
  assumes "fold_option (slice_kernel rnd t rp) ns res = Some res'" and "n \<notin> set ns"
  shows "res' ! n = res ! n \<and> length res' = length res"
  using assms
proof (induction ns arbitrary: res)
  case Nil
  then show ?case by simp
next
  case (Cons m ns)
  from Cons.prems(1) obtain res1 where m: "slice_kernel rnd t rp m res = Some res1"
    and rest: "fold_option (slice_kernel rnd t rp) ns res1 = Some res'"
    by (auto split: option.splits)
  from Cons.prems(2) have "n \<noteq> m" "n \<notin> set ns" by simp_all
  with Cons.IH [OF rest] slice_kernel_frame [OF m] show ?case by simp
qed

lemma slice_threads_length:
  assumes "fold_option (slice_kernel rnd t rp) ns res = Some res'"
  shows "length res' = length res"
  using assms
proof (induction ns arbitrary: res)
  case Nil
  then show ?case by simp
next
  case (Cons m ns)
  from Cons.prems(1) obtain res1 where m: "slice_kernel rnd t rp m res = Some res1"
    and rest: "fold_option (slice_kernel rnd t rp) ns res1 = Some res'"
    by (auto split: option.splits)
  from Cons.IH [OF rest] slice_kernel_frame(1) [OF m] show ?case by simp
qed

lemma slice_threads:
  assumes "fold_option (slice_kernel rnd t rp) ns res = Some res'"
    and "distinct ns" and "n \<in> set ns" and "n < ht_N t"
  shows "fold_option (slice_corner rnd t rp n) [0..<ht_pd t + 1] (res ! n) = Some (res' ! n)"
  using assms
proof (induction ns arbitrary: res)
  case Nil
  then show ?case by simp
next
  case (Cons m ns)
  from Cons.prems(1) obtain res1 where m: "slice_kernel rnd t rp m res = Some res1"
    and rest: "fold_option (slice_kernel rnd t rp) ns res1 = Some res'"
    by (auto split: option.splits)
  show ?case
  proof (cases "m = n")
    case True
    from m Cons.prems(4) obtain out where len: "n < length res"
      and out: "fold_option (slice_corner rnd t rp n) [0..<ht_pd t + 1] (res ! n) = Some out"
      and res1: "res1 = res[n := out]"
      unfolding slice_kernel_def True by (auto split: if_splits option.splits)
    have "n \<notin> set ns" using Cons.prems(2) True by simp
    from slice_threads_frame [OF rest this] have "res' ! n = out"
      unfolding res1 using len by simp
    with out show ?thesis by simp
  next
    case False
    then have "n \<in> set ns" using Cons.prems(3) by simp
    moreover have "distinct ns" using Cons.prems(2) by simp
    ultimately have "fold_option (slice_corner rnd t rp n) [0..<ht_pd t + 1] (res1 ! n) = Some (res' ! n)"
      using Cons.IH [OF rest] Cons.prems(4) by simp
    then show ?thesis
      using slice_kernel_frame(2) [OF m, of n] False by simp
  qed
qed

text \<open>
  The threads of \<open>slice_kernel\<close> return when every row they reach exists and is long
  enough, and every replay entry they read names a readable slot.
\<close>

lemma slice_threads_total:
  assumes "\<And>n r. n \<in> set ns \<Longrightarrow> n < ht_N t \<Longrightarrow> r \<le> ht_pd t \<Longrightarrow> slot_readable t rp n r"
    and "\<And>n. n \<in> set ns \<Longrightarrow> n < ht_N t \<Longrightarrow> n < length res"
    and "\<And>row. row \<in> set res \<Longrightarrow> ht_vd t \<le> length row"
  shows "\<exists>res'. fold_option (slice_kernel rnd t rp) ns res = Some res'"
  using assms
proof (induction ns arbitrary: res)
  case Nil
  show ?case by simp
next
  case (Cons m ns)
  have "\<exists>res1. slice_kernel rnd t rp m res = Some res1
      \<and> length res1 = length res \<and> (\<forall>row \<in> set res1. ht_vd t \<le> length row)"
  proof (cases "ht_N t \<le> m")
    case True
    then show ?thesis using Cons.prems(3) by (simp add: slice_kernel_def)
  next
    case False
    then have m: "m < ht_N t" by simp
    have len: "m < length res" by (rule Cons.prems(2) [OF _ m]) simp
    then have row: "ht_vd t \<le> length (res ! m)" using Cons.prems(3) by simp
    have "\<And>r. r \<in> set [0..<ht_pd t + 1] \<Longrightarrow> slot_readable t rp m r"
      using Cons.prems(1) [OF _ m] by (simp del: upt_Suc)
    from slice_corner_fold_total [OF this row] obtain out
      where out: "fold_option (slice_corner rnd t rp m) [0..<ht_pd t + 1] (res ! m) = Some out"
      by blast
    have "length out = length (res ! m)"
      by (rule slice_corner_fold_length [OF out])
    then have "\<forall>row \<in> set (res[m := out]). ht_vd t \<le> length row"
      using Cons.prems(3) row by (auto dest!: set_update_subset_insert [THEN subsetD])
    with out m len show ?thesis by (simp add: slice_kernel_def)
  qed
  then obtain res1 where res1: "slice_kernel rnd t rp m res = Some res1"
    and l1: "length res1 = length res" and rows1: "\<forall>row \<in> set res1. ht_vd t \<le> length row"
    by blast
  have "\<exists>res'. fold_option (slice_kernel rnd t rp) ns res1 = Some res'"
  proof (rule Cons.IH)
    show "slot_readable t rp n r" if "n \<in> set ns" "n < ht_N t" "r \<le> ht_pd t" for n r
      using Cons.prems(1) that by simp
    show "n < length res1" if "n \<in> set ns" "n < ht_N t" for n
      unfolding l1 using Cons.prems(2) that by simp
    show "ht_vd t \<le> length row" if "row \<in> set res1" for row
      using rows1 that by blast
  qed
  with res1 show ?case by simp
qed

lemma slice_eq:
  assumes "lat_N L = ht_N t"
  shows "slice rnd L (t, rp) src =
     fold_option (slice_kernel rnd t rp) [0..<ht_N t] (map (map (\<lambda>x. 0)) src)"
proof -
  have idle: "fold_option (slice_kernel rnd t rp) [ht_N t..<G] res = Some res" for res G
    by (rule fold_option_idle) (simp add: slice_kernel_def)
  show ?thesis
    unfolding slice_def assms launch_threads_split [OF order_refl] fold_option_append
    by (simp add: idle split: option.splits)
qed

lemma round24_0 [simp]: "round24 0 = 0"
  by (simp add: round24_def)

lemma round24_1 [simp]: "round24 1 = 1"
  by (simp add: round24_def)

lemma round24_idem: "round24 (round24 x) = round24 x"
proof -
  have "\<lfloor>real_of_int k + 1 / 2\<rfloor> = k" for k :: int
    by linarith
  then show ?thesis by (simp add: round24_def)
qed

lemma round24_two_thirds: "round24 (2 / 3) = 11184811 / 16777216"
  by (simp add: round24_def)

lemma slice_rows:
  assumes N: "lat_N L = ht_N t" and rows: "ht_N t \<le> length src"
    and wide: "\<And>row. row \<in> set src \<Longrightarrow> ht_vd t \<le> length row"
    and ready: "\<And>n r. n < ht_N t \<Longrightarrow> r \<le> ht_pd t \<Longrightarrow> slot_readable t rp n r"
  shows "\<exists>result. slice rnd L (t, rp) src = Some result \<and> length result = length src
       \<and> (\<forall>n<ht_N t. \<forall>j<ht_vd t. result ! n ! j =
            fold (\<lambda>r acc. rnd (acc + slice_term rnd t rp n r j)) [0..<ht_pd t + 1] 0)"
proof -
  let ?zeros = "map (map (\<lambda>x. 0::real)) src"
  have "\<exists>res'. fold_option (slice_kernel rnd t rp) [0..<ht_N t] ?zeros = Some res'"
  proof (rule slice_threads_total)
    show "slot_readable t rp n r" if "n < ht_N t" "r \<le> ht_pd t" for n r
      using ready that .
    show "n < length ?zeros" if "n < ht_N t" for n
      using rows that by simp
    show "ht_vd t \<le> length row" if "row \<in> set ?zeros" for row
      using wide that by auto
  qed
  then obtain result where run: "fold_option (slice_kernel rnd t rp) [0..<ht_N t] ?zeros = Some result"
    by blast
  have res: "slice rnd L (t, rp) src = Some result"
    unfolding slice_eq [OF N] by (rule run)
  have len: "length result = length src"
    using slice_threads_length [OF run] by simp
  have val: "result ! n ! j =
      fold (\<lambda>r acc. rnd (acc + slice_term rnd t rp n r j)) [0..<ht_pd t + 1] 0"
    if n: "n < ht_N t" and j: "j < ht_vd t" for n j
  proof -
    have "fold_option (slice_corner rnd t rp n) [0..<ht_pd t + 1] (?zeros ! n) = Some (result ! n)"
      by (rule slice_threads [OF run _ _ n]) (use n in simp_all)
    from slice_corner_fold [OF this j]
    have "result ! n ! j =
        fold (\<lambda>r acc. rnd (acc + slice_term rnd t rp n r j)) [0..<ht_pd t + 1] (?zeros ! n ! j)"
      by blast
    moreover have "n < length src" using n rows by simp
    moreover from this have "j < length (src ! n)" using wide [of "src ! n"] j by simp
    ultimately show ?thesis by simp
  qed
  from res len val show ?thesis by blast
qed

lemma round24_grid: "round24 (11184811 / 16777216) = 11184811 / 16777216"
  by (simp add: round24_def)

lemma round24_below_one: "round24 (1 / (1 + 1 / 2 ^ 24)) = 16777215 / 16777216"
  by (simp add: round24_def)

lemma slice_wide_run:
  "slice round24 (PermutohedralLatticeGPU 24 1 1)
      (\<lparr>ht_pd = 24, ht_vd = 1, ht_N = 1, capacity = 25, keys = replicate 600 0,
         vals = 1 # replicate 24 0, entry2nid = 0 # replicate 24 (- 1)\<rparr>,
       \<lparr>entry = 0, weight = 1\<rparr> # replicate 24 \<lparr>entry = 0, weight = 0\<rparr>)
      [[0]] = Some [[1]]"
proof -
  let ?t = "\<lparr>ht_pd = 24, ht_vd = 1, ht_N = 1, capacity = 25, keys = replicate 600 0,
         vals = 1 # replicate 24 0, entry2nid = 0 # replicate 24 (- 1)\<rparr>"
  let ?rp = "\<lparr>entry = 0, weight = 1\<rparr> # replicate 24 \<lparr>entry = 0, weight = 0\<rparr>"
  have N: "lat_N (PermutohedralLatticeGPU 24 1 1) = ht_N ?t"
    by (simp add: PermutohedralLatticeGPU_def)
  have first: "slice_corner round24 ?t ?rp 0 0 [0] = Some [1]"
    by (simp add: slice_corner_def lookupValue_def slice_divisor_def)
  have later: "slice_corner round24 ?t ?rp 0 r [1] = Some [1]" if "0 < r" "r \<le> 24" for r
    using that by (simp add: slice_corner_def lookupValue_def slice_divisor_def nth_Cons')
  have rest: "fold_option (slice_corner round24 ?t ?rp 0) [1..<25] [1] = Some [1]"
    by (rule fold_option_idle, rule later) auto
  have split: "[0..<ht_pd ?t + 1] = 0 # [1..<25]"
    by (simp add: upt_rec [of 0])
  have "fold_option (slice_corner round24 ?t ?rp 0) [0..<ht_pd ?t + 1] [0] = Some [1]"
    unfolding split using first rest by simp
  then have "slice_kernel round24 ?t ?rp 0 [[0]] = Some [[1]]"
    by (simp add: slice_kernel_def del: upt_Suc)
  then show ?thesis
    unfolding slice_eq [OF N] by simp
qed

lemma single_point_slice:
  assumes "rnd 0 = 0" and "rnd 1 = 1" and "\<And>x. rnd (rnd x) = rnd x"
  shows "slice rnd (PermutohedralLatticeGPU 1 1 1)
      (\<lparr>ht_pd = 1, ht_vd = 1, ht_N = 1, capacity = 2, keys = [0, 1], vals = [1, 0],
         entry2nid = [0, 1]\<rparr>,
       [\<lparr>entry = 0, weight = 1\<rparr>, \<lparr>entry = 1, weight = 0\<rparr>])
      [[1]] = Some [[rnd (2 / 3)]]"
proof -
  let ?t = "\<lparr>ht_pd = 1, ht_vd = 1, ht_N = 1, capacity = 2, keys = [0, 1], vals = [1, 0],
         entry2nid = [0, 1]\<rparr>"
  let ?rp = "[\<lparr>entry = 0, weight = 1\<rparr>, \<lparr>entry = 1, weight = 0\<rparr>]"
  have "slice rnd (PermutohedralLatticeGPU 1 1 1) (?t, ?rp) [[1]] =
      fold_option (slice_kernel rnd ?t ?rp) [0..<ht_N ?t] (map (map (\<lambda>x. 0)) [[1::real]])"
    by (rule slice_eq) (simp add: PermutohedralLatticeGPU_def)
  also have "\<dots> = Some [[rnd (2 / 3)]]"
    by (simp add: slice_kernel_def slice_corner_def lookupValue_def slice_divisor_def assms)
  finally show ?thesis .
qed

lemma single_point_filter: "permutohedral_cuda_filter rnd [[v]] [[0]] = None"
proof -
  let ?t = "\<lparr>ht_pd = 1, ht_vd = 1, ht_N = 1, capacity = 2, keys = [], vals = [],
         entry2nid = []\<rparr>"
  let ?rp = "[\<lparr>entry = 0, weight = 1\<rparr>, \<lparr>entry = 1, weight = 0\<rparr>]"
  have "slice rnd (PermutohedralLatticeGPU 1 1 1) (?t, ?rp) [[v]] =
      fold_option (slice_kernel rnd ?t ?rp) [0..<ht_N ?t] (map (map (\<lambda>x. 0)) [[v]])"
    by (rule slice_eq) (simp add: PermutohedralLatticeGPU_def)
  also have "\<dots> = None"
    by (simp add: slice_kernel_def slice_corner_def lookupValue_def)
  finally show ?thesis
    by (simp add: permutohedral_cuda_filter_def row_size_def filter_lattice_def splat_def
        single_point_splat_launch [unfolded One_nat_def] HashTableGPU_destructor_def)
qed

lemma single_point_run_cu: "permutohedral_cuda_filter_cu [[v]] [[0]] = None"
  by (simp add: permutohedral_cuda_filter_cu_def row_size_def filter_cu_def splat_cu_def
      single_point_splat_launch_cu [unfolded One_nat_def] HashTableGPU_cu_destructor_def
      size_cu_def)

lemma single_point_slice_zero:
  "slice round24 (PermutohedralLatticeGPU 1 1 1)
      (\<lparr>ht_pd = 1, ht_vd = 1, ht_N = 1, capacity = 2, keys = [0, 1], vals = [0, 0],
         entry2nid = [0, 1]\<rparr>,
       [\<lparr>entry = 0, weight = 1\<rparr>, \<lparr>entry = 1, weight = 0\<rparr>])
      [[0]] = Some [[0]]"
proof -
  let ?t = "\<lparr>ht_pd = 1, ht_vd = 1, ht_N = 1, capacity = 2, keys = [0, 1], vals = [0, 0],
         entry2nid = [0, 1]\<rparr>"
  let ?rp = "[\<lparr>entry = 0, weight = 1\<rparr>, \<lparr>entry = 1, weight = 0\<rparr>]"
  have "slice round24 (PermutohedralLatticeGPU 1 1 1) (?t, ?rp) [[0]] =
      fold_option (slice_kernel round24 ?t ?rp) [0..<ht_N ?t] (map (map (\<lambda>x. 0)) [[0::real]])"
    by (rule slice_eq) (simp add: PermutohedralLatticeGPU_def)
  also have "\<dots> = Some [[0]]"
    by (simp add: slice_kernel_def slice_corner_def lookupValue_def slice_divisor_def)
  finally show ?thesis .
qed

lemma c_round_small: "\<bar>x\<bar> < 1 / 2 \<Longrightarrow> c_round x = 0"
  unfolding c_round_def by (simp add: abs_less_iff) linarith

lemma scaleFactor_table_1: "scaleFactor_table 1 = [2 * sqrt (2 / 3) / sqrt 2]"
  by (simp add: scaleFactor_table_def)

lemma scaleFactor_1_bounds:
  "0 < 2 * sqrt (2 / 3) / sqrt 2" "2 * sqrt (2 / 3) / sqrt 2 < 4"
proof -
  show "0 < 2 * sqrt (2 / 3) / sqrt 2" by simp
  have a: "sqrt (2 / 3) < sqrt 2" by simp
  have b: "0 < sqrt 2" by simp
  from a b have "2 * sqrt (2 / 3) < 4 * sqrt 2" by linarith
  with b show "2 * sqrt (2 / 3) / sqrt 2 < 4"
    by (simp only: pos_divide_less_eq)
qed

lemma geometry_left_1:
  assumes "0 < s" and "s < 4"
  shows "splat_geometry 1 [- (1 / 4)] [s] =
     Some \<lparr>matE = [- (s / 4), s / 4], matY = [0, 0], matR = [1, 0],
           matB = [1 - s / 4, s / 4, - (s / 8)]\<rparr>"
proof -
  have r0: "c_round (- (s / 8)) = 0" "c_round (s / 8) = 0"
    using assms by (auto intro!: c_round_small)
  have r1: "c_round (- (s / 4) / 2) = 0" "c_round (s / 4 / 2) = 0"
    using r0 by simp_all
  show ?thesis
    using assms
    by (simp add: splat_geometry_def corrected_point_def ranked_point_def round_stage_def
        round_step_def rank_stage_def rank_pair_def remainder_def correct_stage_def
        bary_stage_def bary_step_def elevate_def zero_point_def r0 cast_int16_def
        c_div_def narrow16_def Let_def)
qed

lemma lookup_by_fuel:
  assumes "0 < cu_capacity t"
    and "lookup_fuel (cu_capacity t) t key c (hash (cu_pd t) key mod cu_capacity t) \<noteq> None"
  shows "lookup t key c =
     lookup_fuel (cu_capacity t) t key c (hash (cu_pd t) key mod cu_capacity t)"
proof -
  from assms(2) obtain r
    where r: "lookup_fuel (cu_capacity t) t key c (hash (cu_pd t) key mod cu_capacity t) = Some r"
    by blast
  from lookup_fuel_eval [OF assms(1) r] r show ?thesis by simp
qed

lemma insert_by_fuel:
  assumes "0 < capacity t"
    and "insert_fuel (capacity t) t key nid (hash (ht_pd t) key mod capacity t) \<noteq> None"
  shows "insert_ht t key nid =
     insert_fuel (capacity t) t key nid (hash (ht_pd t) key mod capacity t)"
proof -
  from assms(2) obtain r
    where r: "insert_fuel (capacity t) t key nid (hash (ht_pd t) key mod capacity t) = Some r"
    by blast
  from insert_ht_fuel [OF assms(1) r] r show ?thesis by simp
qed

lemma lookup_fuel_numeral:
  "lookup_fuel (numeral k) t key create h =
     (if entryIdx t ! h = - 2
      then lookup_fuel (pred_numeral k) t key create (next_bucket (cu_capacity t) h)
      else if entryIdx t ! h = - 1 then
        (if \<not> create then Some (t, None)
         else case next_free_slot t of
                None \<Rightarrow> None
              | Some st \<Rightarrow>
                  Some ((snd st)\<lparr>cu_keys := write_key (cu_pd t) key (nat (fst st)) (cu_keys t),
                                  entryIdx := (entryIdx t)[h := fst st]\<rparr>,
                        Some (nat (fst st) * cu_vd t)))
      else if key_match (cu_pd t) (cu_keys t) (entryIdx t ! h) key
        then Some (t, Some (nat (entryIdx t ! h) * cu_vd t))
      else lookup_fuel (pred_numeral k) t key create (next_bucket (cu_capacity t) h))"
  by (simp add: numeral_eq_Suc)

lemma insert_fuel_numeral:
  "insert_fuel (numeral k) t key nid h =
     (if entry2nid t ! h = - 2
      then insert_fuel (pred_numeral k) t key nid (next_bucket (capacity t) h)
      else if entry2nid t ! h = - 1 then
        Some (t\<lparr>keys := write_key (ht_pd t) key nid (keys t),
                 entry2nid := (entry2nid t)[h := int nid]\<rparr>, h)
      else if key_match (ht_pd t) (keys t) (entry2nid t ! h) key then Some (t, h)
      else insert_fuel (pred_numeral k) t key nid (next_bucket (capacity t) h))"
  by (simp add: numeral_eq_Suc)

lemma hash_1: "hash (Suc 0) [k] = nat (k mod 18446744073709551616) * 2531011 mod 18446744073709551616"
  by (simp add: hash_def)

lemma two_points_kernel_cu_0:
  "splat_kernel_cu [s] [0, 0, 1, - 1] [[0], [4]] [[0], [- (1 / 4)]] 0
      \<lparr>cu_pd = 1, cu_vd = 1, cu_N = 2, cu_capacity = 4, cu_keys = [0, 0, 0, 0],
       cu_values = [0, 0, 0, 0], filled = [0], entryIdx = [- 1, - 1, - 1, - 1], slotLock = [0]\<rparr> =
     Some \<lparr>cu_pd = 1, cu_vd = 1, cu_N = 2, cu_capacity = 4, cu_keys = [0, 1, 0, 0],
       cu_values = [0, 0, 0, 0], filled = [2], entryIdx = [0, - 1, - 1, 1], slotLock = [0]\<rparr>"
  by (simp add: splat_kernel_cu_def geometry_origin_1 [unfolded One_nat_def] splat_corner_cu_def
      corner_key_def narrow16_def lookup_by_fuel hash_1 lookup_fuel_numeral next_free_slot_def
      write_key_def atomic_add_row_def key_match_def next_bucket_def)



lemma two_points_kernel_cu_1:
  assumes "0 < s" and "s < 4"
  shows "splat_kernel_cu [s] [0, 0, 1, - 1] [[0], [4]] [[0], [- (1 / 4)]] 1
      \<lparr>cu_pd = 1, cu_vd = 1, cu_N = 2, cu_capacity = 4, cu_keys = [0, 1, 0, 0],
       cu_values = [0, 0, 0, 0], filled = [2], entryIdx = [0, - 1, - 1, 1], slotLock = [0]\<rparr> =
     Some \<lparr>cu_pd = 1, cu_vd = 1, cu_N = 2, cu_capacity = 4, cu_keys = [0, 1, - 1, 0],
       cu_values = [4 - s, 0, s, 0], filled = [3], entryIdx = [0, 2, - 1, 1], slotLock = [0]\<rparr>"
  by (simp add: splat_kernel_cu_def geometry_left_1 [OF assms, unfolded One_nat_def]
      splat_corner_cu_def
      corner_key_def narrow16_def lookup_by_fuel hash_1 lookup_fuel_numeral next_free_slot_def
      write_key_def atomic_add_row_def key_match_def next_bucket_def)

lemma two_points_kernel_0:
  "splat_kernel [s] [0, 0, 1, - 1] [[0], [4]] [[0], [- (1 / 4)]] 0
      (\<lparr>ht_pd = 1, ht_vd = 1, ht_N = 2, capacity = 4, keys = [0, 0, 0, 0],
         vals = [0, 0, 0, 0], entry2nid = [- 1, - 1, - 1, - 1]\<rparr>,
       [\<lparr>entry = 0, weight = 0\<rparr>, \<lparr>entry = 0, weight = 0\<rparr>,
        \<lparr>entry = 0, weight = 0\<rparr>, \<lparr>entry = 0, weight = 0\<rparr>]) =
     Some (\<lparr>ht_pd = 1, ht_vd = 1, ht_N = 2, capacity = 4, keys = [0, 1, 0, 0],
         vals = [0, 0, 0, 0], entry2nid = [0, - 1, - 1, 1]\<rparr>,
       [\<lparr>entry = 0, weight = 1\<rparr>, \<lparr>entry = 3, weight = 0\<rparr>,
        \<lparr>entry = 0, weight = 0\<rparr>, \<lparr>entry = 0, weight = 0\<rparr>])"
  by (simp add: splat_kernel_def geometry_origin_1 [unfolded One_nat_def] splat_corner_def
      corner_key_def narrow16_def insert_by_fuel hash_1 insert_fuel_numeral lookupValue_def
      write_key_def atomic_add_row_def key_match_def next_bucket_def)

lemma two_points_kernel_1:
  assumes "0 < s" and "s < 4"
  shows "splat_kernel [s] [0, 0, 1, - 1] [[0], [4]] [[0], [- (1 / 4)]] 1
      (\<lparr>ht_pd = 1, ht_vd = 1, ht_N = 2, capacity = 4, keys = [0, 1, 0, 0],
         vals = [0, 0, 0, 0], entry2nid = [0, - 1, - 1, 1]\<rparr>,
       [\<lparr>entry = 0, weight = 1\<rparr>, \<lparr>entry = 3, weight = 0\<rparr>,
        \<lparr>entry = 0, weight = 0\<rparr>, \<lparr>entry = 0, weight = 0\<rparr>]) =
     Some (\<lparr>ht_pd = 1, ht_vd = 1, ht_N = 2, capacity = 4, keys = [0, 1, 0, - 1],
         vals = [4 - s, 0, 0, s], entry2nid = [0, 3, - 1, 1]\<rparr>,
       [\<lparr>entry = 0, weight = 1\<rparr>, \<lparr>entry = 3, weight = 0\<rparr>,
        \<lparr>entry = 0, weight = 1 - s / 4\<rparr>, \<lparr>entry = 1, weight = s / 4\<rparr>])"
  by (simp add: splat_kernel_def geometry_left_1 [OF assms, unfolded One_nat_def] splat_corner_def
      corner_key_def narrow16_def insert_by_fuel hash_1 insert_fuel_numeral lookupValue_def
      write_key_def atomic_add_row_def key_match_def next_bucket_def)

lemma two_points_launch_cu:
  "splat_launch_cu (PermutohedralLatticeGPU_cu 1 1 2) [[0], [4]] [[0], [- (1 / 4)]] =
     Some \<lparr>cu_pd = 1, cu_vd = 1, cu_N = 2, cu_capacity = 4, cu_keys = [0, 1, - 1, 0],
       cu_values = [4 - 2 * sqrt (2 / 3) / sqrt 2, 0, 2 * sqrt (2 / 3) / sqrt 2, 0],
       filled = [3], entryIdx = [0, 2, - 1, 1], slotLock = [0]\<rparr>"
proof -
  let ?L = "PermutohedralLatticeGPU_cu 1 1 2"
  have L: "cu_scaleFactor ?L = [2 * sqrt (2 / 3) / sqrt 2]" "cu_canonical ?L = [0, 0, 1, - 1]"
    "cu_lat_N ?L = 2"
    "cu_hashTable ?L = \<lparr>cu_pd = 1, cu_vd = 1, cu_N = 2, cu_capacity = 4, cu_keys = [0, 0, 0, 0],
       cu_values = [0, 0, 0, 0], filled = [0], entryIdx = [- 1, - 1, - 1, - 1], slotLock = [0]\<rparr>"
    by (simp_all add: PermutohedralLatticeGPU_cu_def HashTableGPU_cu_def scaleFactor_table_1 [unfolded One_nat_def] canonical_table_1 [unfolded One_nat_def]
        numeral_eq_Suc)
  have "splat_launch_cu ?L [[0], [4]] [[0], [- (1 / 4)]] =
      fold_option (splat_kernel_cu (cu_scaleFactor ?L) (cu_canonical ?L) [[0], [4]] [[0], [- (1 / 4)]])
        [0..<cu_lat_N ?L] (cu_hashTable ?L)"
    by (rule splat_launch_cu_eq) (simp add: PermutohedralLatticeGPU_cu_def)
  also have "[0..<cu_lat_N ?L] = [0, 1]"
    unfolding L by (simp add: upt_rec)
  finally show ?thesis
    unfolding L
    by (simp add: two_points_kernel_cu_0 [unfolded One_nat_def]
        two_points_kernel_cu_1 [OF scaleFactor_1_bounds, unfolded One_nat_def])
qed

lemma two_points_launch:
  "splat_launch (PermutohedralLatticeGPU 1 1 2) [[0], [4]] [[0], [- (1 / 4)]] =
     Some (\<lparr>ht_pd = 1, ht_vd = 1, ht_N = 2, capacity = 4, keys = [0, 1, 0, - 1],
         vals = [4 - 2 * sqrt (2 / 3) / sqrt 2, 0, 0, 2 * sqrt (2 / 3) / sqrt 2],
         entry2nid = [0, 3, - 1, 1]\<rparr>,
       [\<lparr>entry = 0, weight = 1\<rparr>, \<lparr>entry = 3, weight = 0\<rparr>,
        \<lparr>entry = 0, weight = 1 - 2 * sqrt (2 / 3) / sqrt 2 / 4\<rparr>,
        \<lparr>entry = 1, weight = 2 * sqrt (2 / 3) / sqrt 2 / 4\<rparr>])"
proof -
  let ?L = "PermutohedralLatticeGPU 1 1 2"
  have L: "scaleFactor ?L = [2 * sqrt (2 / 3) / sqrt 2]" "canonical ?L = [0, 0, 1, - 1]"
    "lat_N ?L = 2"
    "hashTable ?L = \<lparr>ht_pd = 1, ht_vd = 1, ht_N = 2, capacity = 4, keys = [0, 0, 0, 0],
         vals = [0, 0, 0, 0], entry2nid = [- 1, - 1, - 1, - 1]\<rparr>"
    "replay ?L = [\<lparr>entry = 0, weight = 0\<rparr>, \<lparr>entry = 0, weight = 0\<rparr>,
        \<lparr>entry = 0, weight = 0\<rparr>, \<lparr>entry = 0, weight = 0\<rparr>]"
    by (simp_all add: PermutohedralLatticeGPU_def HashTableGPU_def scaleFactor_table_1 [unfolded One_nat_def] canonical_table_1 [unfolded One_nat_def]
        numeral_eq_Suc)
  have "splat_launch ?L [[0], [4]] [[0], [- (1 / 4)]] =
      fold_option (splat_kernel (scaleFactor ?L) (canonical ?L) [[0], [4]] [[0], [- (1 / 4)]])
        [0..<lat_N ?L] (hashTable ?L, replay ?L)"
    by (rule splat_launch_eq) (simp add: PermutohedralLatticeGPU_def)
  also have "[0..<lat_N ?L] = [0, 1]"
    unfolding L by (simp add: upt_rec)
  finally show ?thesis
    unfolding L
    by (simp add: two_points_kernel_0 [unfolded One_nat_def]
        two_points_kernel_1 [OF scaleFactor_1_bounds, unfolded One_nat_def])
qed

text \<open>
  The corner loop of the splat kernel that calls \<open>insert\<close>: corner \<open>r\<close> of point \<open>n\<close> passes
  the slot index \<open>n * (pd + 1) + r\<close>.  If no bucket holds that index yet, then either the
  bucket found was empty, now holds the index, and the contribution is added into that
  slot; or the bucket was owned by another slot with an equal key, the buckets are
  unchanged, the contribution is added into the owner's slot and the slot
  \<open>n * (pd + 1) + r\<close> keeps its values.
\<close>

lemma splat_corner_slot:
  assumes run: "splat_corner pd vd canon p val n r (t, rp) = Some (t', rp')"
    and pd: "ht_pd t = pd" and vd: "ht_vd t = vd"
    and len: "length (entry2nid t) = capacity t"
    and fresh: "int (n * (pd + 1) + r) \<notin> set (entry2nid t)"
  shows "\<exists>h < capacity t.
       rp' ! (n * (pd + 1) + r) = \<lparr>entry = h, weight = matB p ! r\<rparr>
     \<and> insert_ht t (corner_key pd canon p r) (n * (pd + 1) + r) = Some (t'\<lparr>vals := vals t\<rparr>, h)
     \<and> (entry2nid t ! h = - 1 \<longrightarrow>
          entry2nid t' = (entry2nid t)[h := int (n * (pd + 1) + r)]
        \<and> (\<forall>i<vd. vals t' ! ((n * (pd + 1) + r) * vd + i) =
                   vals t ! ((n * (pd + 1) + r) * vd + i) + matB p ! r * val ! i))
     \<and> (entry2nid t ! h \<noteq> - 1 \<longrightarrow>
          entry2nid t' = entry2nid t \<and> 0 \<le> entry2nid t ! h
        \<and> entry2nid t ! h \<noteq> int (n * (pd + 1) + r)
        \<and> key_match pd (keys t) (entry2nid t ! h) (corner_key pd canon p r)
        \<and> (\<forall>i<vd. vals t' ! (nat (entry2nid t ! h) * vd + i) =
                     vals t ! (nat (entry2nid t ! h) * vd + i) + matB p ! r * val ! i
                 \<and> vals t' ! ((n * (pd + 1) + r) * vd + i) = vals t ! ((n * (pd + 1) + r) * vd + i)))"
proof -
  let ?nid = "n * (pd + 1) + r"
  let ?key = "corner_key pd canon p r"
  let ?w = "matB p ! r"
  from run obtain t1 h base where nid: "?nid < length rp"
    and ins: "insert_ht t ?key ?nid = Some (t1, h)"
    and look: "lookupValue t1 h = Some base"
    and t': "t' = t1\<lparr>vals := atomic_add_row vd base ?w val (vals t1)\<rparr>"
    and rp': "rp' = rp[?nid := \<lparr>entry = h, weight = ?w\<rparr>]"
    unfolding splat_corner_def by (auto split: if_splits option.splits)
  note frame = insert_ht_frame [OF ins]
  note res = insert_ht_Some [OF ins]
  have h: "h < capacity t" by (rule res(1))
  from look have base: "base = nat (entry2nid t1 ! h) * vd" and nonneg: "0 \<le> entry2nid t1 ! h"
    and fits: "base + vd \<le> length (vals t)"
    unfolding lookupValue_def using frame(3,6) vd by (simp_all split: if_splits)
  have vals': "vals t' = atomic_add_row vd base ?w val (vals t)"
    unfolding t' using frame(6) by simp
  have added: "vals t' ! (base + i) = vals t ! (base + i) + ?w * val ! i" if "i < vd" for i
    unfolding vals' nth_atomic_add_row using that fits by simp
  have rp_nid: "rp' ! ?nid = \<lparr>entry = h, weight = ?w\<rparr>"
    unfolding rp' using nid by simp
  have ins': "insert_ht t ?key ?nid = Some (t'\<lparr>vals := vals t\<rparr>, h)"
    unfolding ins t' using frame(6) by simp
  have empty: "entry2nid t' = (entry2nid t)[h := int ?nid]
        \<and> (\<forall>i<vd. vals t' ! (?nid * vd + i) = vals t ! (?nid * vd + i) + ?w * val ! i)"
    if "entry2nid t ! h = - 1"
  proof -
    from res(2) that have t1: "t1 = claimed t ?key ?nid h" by simp
    have e: "entry2nid t' = (entry2nid t)[h := int ?nid]"
      unfolding t' t1 by (simp add: claimed_def)
    have "entry2nid t1 ! h = int ?nid"
      unfolding t1 using h len by (simp add: claimed_def)
    then have "nat (entry2nid t1 ! h) = ?nid" by (simp only: nat_int)
    then have "base = ?nid * vd" unfolding base by (simp only:)
    with added e show ?thesis by simp
  qed
  have found: "entry2nid t' = entry2nid t \<and> 0 \<le> entry2nid t ! h
        \<and> entry2nid t ! h \<noteq> int ?nid
        \<and> key_match pd (keys t) (entry2nid t ! h) ?key
        \<and> (\<forall>i<vd. vals t' ! (nat (entry2nid t ! h) * vd + i) =
                     vals t ! (nat (entry2nid t ! h) * vd + i) + ?w * val ! i
                 \<and> vals t' ! (?nid * vd + i) = vals t ! (?nid * vd + i))"
    if "entry2nid t ! h \<noteq> - 1"
  proof -
    from res(2) that have t1: "t1 = t"
      and match: "key_match (ht_pd t) (keys t) (entry2nid t ! h) ?key" by simp_all
    have "entry2nid t ! h \<in> set (entry2nid t)"
      using h len by (intro nth_mem) simp
    with fresh have other: "entry2nid t ! h \<noteq> int ?nid" by auto
    have b: "base = nat (entry2nid t ! h) * vd" unfolding base t1 ..
    have ne: "nat (entry2nid t ! h) \<noteq> ?nid"
    proof
      assume "nat (entry2nid t ! h) = ?nid"
      then have "int (nat (entry2nid t ! h)) = int ?nid" by (simp only:)
      moreover have "int (nat (entry2nid t ! h)) = entry2nid t ! h"
        using nonneg unfolding t1 by simp
      ultimately show False using other by simp
    qed
    have own: "vals t' ! (?nid * vd + i) = vals t ! (?nid * vd + i)" if "i < vd" for i
      unfolding vals' nth_atomic_add_row b
      using slots_disjoint [OF ne that] by auto
    show ?thesis
      using added own match nonneg other unfolding t' t1 b pd by simp
  qed
  from h rp_nid ins' empty found show ?thesis by blast
qed

section \<open>C9: rows of the canonical table\<close>

lemma sum_list_table_row_canonical:
  assumes "r \<le> pd"
  shows "sum_list (table_row pd r (canonical_table pd)) =
     int (pd + 1 - r) * narrow16 (int r) + int r * narrow16 (int r - (int pd + 1))"
  unfolding table_row_canonical [OF assms] by (simp add: sum_list_replicate)

lemma sum_list_map_nth_perm:
  fixes xs :: "int list"
  assumes "distinct rk" and "set rk = {0..<length xs}"
  shows "(\<Sum>i\<leftarrow>rk. xs ! i) = sum_list xs"
proof -
  have "(\<Sum>i\<leftarrow>rk. xs ! i) = (\<Sum>i\<in>set rk. xs ! i)"
    using assms(1) by (simp add: sum_list_distinct_conv_sum_set)
  also have "\<dots> = (\<Sum>i = 0..<length xs. xs ! i)"
    using assms(2) by simp
  also have "\<dots> = sum_list xs"
    by (simp add: sum_list_sum_nth)
  finally show ?thesis .
qed

text \<open>
  C9.  For \<open>1 \<le> pd \<le> 32767\<close>, row \<open>r\<close> of the canonical table built by the constructor
  consists of \<open>pd + 1 - r\<close> entries equal to \<open>r\<close> followed by \<open>r\<close> entries equal to
  \<open>r - (pd + 1)\<close>; the row sums to zero, and so does the row read through any permutation
  \<open>rk\<close> of the column indices \<open>0..pd\<close>, which is how the splat kernel reads it
  (\<open>canonical[r * (pd + 1) + rank[i]]\<close>).
\<close>

theorem canonical_rows_zero_sum:
  assumes "1 \<le> pd" and "pd \<le> 32767" and "r \<le> pd"
  shows "table_row pd r (canonical_table pd) =
           replicate (pd + 1 - r) (int r) @ replicate r (int r - (int pd + 1))
       \<and> sum_list (table_row pd r (canonical_table pd)) = 0
       \<and> (\<forall>rk. distinct rk \<and> set rk = {0..<pd + 1} \<longrightarrow>
             (\<Sum>i\<leftarrow>rk. canonical_table pd ! (r * (pd + 1) + i)) = 0)"
proof -
  have n1: "narrow16 (int r) = int r"
    using assms by (intro narrow16_id) simp_all
  have n2: "narrow16 (int r - (int pd + 1)) = int r - (int pd + 1)"
    using assms by (intro narrow16_id) simp_all
  have row: "table_row pd r (canonical_table pd) =
      replicate (pd + 1 - r) (int r) @ replicate r (int r - (int pd + 1))"
    using table_row_canonical [OF assms(3)] by (simp only: n1 n2)
  have "sum_list (table_row pd r (canonical_table pd)) =
      int (pd + 1 - r) * int r + int r * (int r - (int pd + 1))"
    using sum_list_table_row_canonical [OF assms(3)] by (simp only: n1 n2)
  also have "\<dots> = 0"
    using assms(3) by (simp add: algebra_simps of_nat_diff)
  finally have total: "sum_list (table_row pd r (canonical_table pd)) = 0" .
  have perm: "(\<Sum>i\<leftarrow>rk. canonical_table pd ! (r * (pd + 1) + i)) = 0"
    if rk: "distinct rk \<and> set rk = {0..<pd + 1}" for rk
  proof -
    have len: "length (table_row pd r (canonical_table pd)) = pd + 1"
      by (rule length_table_row [OF assms(3) length_canonical_table])
    have "(\<Sum>i\<leftarrow>rk. canonical_table pd ! (r * (pd + 1) + i)) =
        (\<Sum>i\<leftarrow>rk. table_row pd r (canonical_table pd) ! i)"
    proof (rule arg_cong [where f = sum_list], rule map_cong [OF refl])
      fix i
      assume "i \<in> set rk"
      with rk have "i \<le> pd" by auto
      then show "canonical_table pd ! (r * (pd + 1) + i) =
          table_row pd r (canonical_table pd) ! i"
        using nth_table_row [OF assms(3) _ length_canonical_table] by simp
    qed
    also have "\<dots> = sum_list (table_row pd r (canonical_table pd))"
      using rk len by (intro sum_list_map_nth_perm) simp_all
    finally show ?thesis
      using total by simp
  qed
  from row total perm show ?thesis by blast
qed

theorem canonical_rows_zero_sum_witness:
  "table_row 2 1 (canonical_table 2) = replicate (2 + 1 - 1) (int 1) @ replicate 1 (int 1 - (int 2 + 1))
   \<and> sum_list (table_row 2 1 (canonical_table 2)) = 0
   \<and> (\<Sum>i\<leftarrow>[2, 0, 1]. canonical_table 2 ! (1 * (2 + 1) + i)) = 0"
proof -
  have set: "set [2, 0, 1::nat] = {0..<2 + 1}" by auto
  have rk: "distinct [2, 0, 1::nat] \<and> set [2, 0, 1::nat] = {0..<2 + 1}"
    using set by simp
  have h: "(1::nat) \<le> 2" "(2::nat) \<le> 32767" by simp_all
  note inst = canonical_rows_zero_sum [OF h(1) h(2) h(1)]
  have a: "table_row 2 1 (canonical_table 2) =
      replicate (2 + 1 - 1) (int 1) @ replicate 1 (int 1 - (int 2 + 1))"
    by (rule inst [THEN conjunct1])
  have b: "sum_list (table_row 2 1 (canonical_table 2)) = 0"
    by (rule inst [THEN conjunct2, THEN conjunct1])
  have "distinct [2, 0, 1::nat] \<and> set [2, 0, 1::nat] = {0..<2 + 1} \<longrightarrow>
       (\<Sum>i\<leftarrow>[2, 0, 1]. canonical_table 2 ! (1 * (2 + 1) + i)) = 0"
    by (rule inst [THEN conjunct2, THEN conjunct2, THEN spec])
  with rk have c: "(\<Sum>i\<leftarrow>[2, 0, 1]. canonical_table 2 ! (1 * (2 + 1) + i)) = 0"
    by (rule rev_mp)
  from a b c show ?thesis by (intro conjI)
qed

text \<open>
  The table cells are \<open>int16_t\<close>: at \<open>pd = 32768\<close> the entry \<open>r = 32768\<close> written into row
  \<open>32768\<close> is stored as \<open>- 32768\<close>, and that row sums to \<open>- 65536\<close>.
\<close>

theorem canonical_rows_wrap_counterexample:
  "canonical_table 32768 ! (32768 * (32768 + 1) + 0) = - 32768
   \<and> sum_list (table_row 32768 32768 (canonical_table 32768)) = - 65536"
proof -
  have "canonical_table 32768 ! (32768 * (32768 + 1) + 0) = - 32768"
    using nth_canonical_table [of 32768 32768 0] by (simp add: narrow16_def)
  moreover have "sum_list (table_row 32768 32768 (canonical_table 32768)) = - 65536"
    using sum_list_table_row_canonical [of 32768 32768] by (simp add: narrow16_def)
  ultimately show ?thesis ..
qed

section \<open>C3: the barycentric weights of the simplex corners\<close>



section \<open>C10: the ranks are a permutation and index the rows safely\<close>

text \<open>The rank of axis \<open>k\<close> after the pairwise ranking loops.\<close>

definition rank_at :: "nat \<Rightarrow> real list \<Rightarrow> real list \<Rightarrow> nat \<Rightarrow> int option" where
  "rank_at pd pos sf k =
     (case ranked_point pd pos sf of None \<Rightarrow> None | Some s \<Rightarrow> Some (matR (fst s) ! k))"

lemma ranked_point_total:
  assumes "1 \<le> pd"
    and "representable pd (elevate pd pos sf (replicate (pd + 1) 0)) [0..<pd + 1]"
  shows "\<exists>p h. ranked_point pd pos sf = Some (p, h)"
  using assms unfolding ranked_point_def round_stage_eq by simp

lemma rank_at_origin:
  assumes "1 \<le> pd"
  shows "rank_at pd (replicate pd 0) sf pd = Some (narrow16 (int pd))"
proof -
  let ?pos = "replicate pd (0::real)"
  let ?e = "elevate pd ?pos sf (replicate (pd + 1) 0)"
  have value0: "elevated_value ?pos sf pd j = 0" if "j \<le> pd" for j
  proof -
    have "tail_sum ?pos sf pd i = 0" for i
      unfolding tail_sum_def by (rule sum.neutral) simp
    moreover have "?pos ! (j - 1) = 0" if "j \<noteq> 0"
      using that \<open>j \<le> pd\<close> by simp
    ultimately show ?thesis
      by (simp add: elevated_value_def)
  qed
  have e0: "?e ! j = 0" if "j \<le> pd" for j
    using elevate_nth(1) [OF assms that, of "replicate (pd + 1) 0" ?pos sf] value0 [OF that]
    by simp
  have coord0: "lattice_coord pd ?e j = 0" if "j \<le> pd" for j
    unfolding lattice_coord_def e0 [OF that] by (simp add: c_round_def)
  have "representable pd ?e [0..<pd + 1]"
    unfolding representable_def list_all_upt using coord0 by simp
  from ranked_point_total [OF assms this] obtain p h
    where rp: "ranked_point pd ?pos sf = Some (p, h)" by blast
  note facts = ranked_point_Some [OF rp]
  have eE: "matE p ! j = 0" if "j \<le> pd" for j
    using facts(7) [OF that] value0 [OF that] by simp
  have yY: "matY p ! j = 0" if "j \<le> pd" for j
  proof -
    have "lattice_coord pd (matE p) j = 0"
      unfolding lattice_coord_def eE [OF that] by (simp add: c_round_def)
    then show ?thesis
      using facts(8) [OF that] by (simp add: narrow16_def)
  qed
  have rem0: "remainder p j = 0" if "j \<le> pd" for j
    unfolding remainder_def using eE [OF that] yY [OF that] by simp
  have "filter (\<lambda>i. \<not> remainder p i < remainder p pd) [0..<pd] = [0..<pd]"
    unfolding filter_id_conv using rem0 by simp
  then have "rank_of (remainder p) pd pd = pd"
    unfolding rank_of_def by simp
  then have "matR p ! pd = narrow16 (int pd)"
    using facts(6) [of pd] by simp
  then show ?thesis
    unfolding rank_at_def rp by simp
qed

text \<open>
  C10.  Let \<open>pd \<le> 32767\<close> and let the rounding of the point be defined, so that the
  kernel reaches the ranking loops with rows \<open>p\<close> and \<open>h\<close>.  Then after the pairwise
  ranking \<open>rank[0..pd]\<close> is a permutation of \<open>0..pd\<close>; after the correction by \<open>h\<close> every
  \<open>rank[i]\<close> lies in \<open>0..pd\<close>, the indices \<open>pd - rank[i]\<close> and \<open>pd + 1 - rank[i]\<close> lie inside
  \<open>bary\<close>, the index \<open>r * (pd + 1) + rank[i]\<close> lies inside the canonical table for every
  corner \<open>r\<close>, and the barycentric loop runs without leaving its row.
\<close>

theorem rank_permutation_and_index_safety:
  assumes "pd \<le> 32767" and "ranked_point pd pos sf = Some (p, h)"
  shows "length (matR p) = pd + 1 \<and> distinct (matR p) \<and> set (matR p) = {0..int pd}
       \<and> corrected_point pd pos sf = Some (correct_stage pd h p)
       \<and> (\<forall>i\<le>pd. 0 \<le> matR (correct_stage pd h p) ! i
              \<and> matR (correct_stage pd h p) ! i \<le> int pd
              \<and> 0 \<le> int pd - matR (correct_stage pd h p) ! i
              \<and> int pd + 1 - matR (correct_stage pd h p) ! i
                   < int (length (matB (correct_stage pd h p)))
              \<and> (\<forall>r\<le>pd. r * (pd + 1) + nat (matR (correct_stage pd h p) ! i)
                   < length (canonical_table pd)))
       \<and> bary_stage pd (correct_stage pd h p) \<noteq> None"
proof -
  let ?q = "correct_stage pd h p"
  note rp = ranked_point_Some [OF assms(2)]
  note cp = corrected_point_ranks [OF assms(2,1)]
  have lenB: "length (matB ?q) = pd + 2"
    using rp(4) by simp
  have idx: "0 \<le> matR ?q ! i \<and> matR ?q ! i \<le> int pd
      \<and> 0 \<le> int pd - matR ?q ! i
      \<and> int pd + 1 - matR ?q ! i < int (length (matB ?q))
      \<and> (\<forall>r\<le>pd. r * (pd + 1) + nat (matR ?q ! i) < length (canonical_table pd))"
    if i: "i \<le> pd" for i
  proof -
    from cp(2) [OF i] have range: "0 \<le> matR ?q ! i" "matR ?q ! i \<le> int pd" by simp_all
    then have "nat (matR ?q ! i) \<le> pd" by simp
    then have "r * (pd + 1) + nat (matR ?q ! i) < length (canonical_table pd)" if "r \<le> pd" for r
      unfolding length_canonical_table by (rule canonical_index_bound [OF that])
    then show ?thesis
      using range lenB by simp
  qed
  have "\<exists>g. bary_stage pd ?q = Some g"
    using idx lenB by (intro bary_stage_total) simp_all
  then have "bary_stage pd ?q \<noteq> None" by auto
  then show ?thesis
    using rp(2) rp(9) [OF assms(1)] cp(1) [of 0] idx by simp
qed

theorem rank_permutation_and_index_safety_witness:
  "(2::nat) \<le> 32767
   \<and> ranked_point 2 [0, 8 / 5] [1, 1] =
       Some (\<lparr>matE = [8 / 5, 8 / 5, - (16 / 5)], matY = [3, 3, - 3], matR = [1, 2, 0],
              matB = [0, 0, 0, 0]\<rparr>, 1)
   \<and> corrected_point 2 [0, 8 / 5] [1, 1] =
       Some (correct_stage 2 1 \<lparr>matE = [8 / 5, 8 / 5, - (16 / 5)], matY = [3, 3, - 3],
              matR = [1, 2, 0], matB = [0, 0, 0, 0]\<rparr>)
   \<and> bary_stage 2 (correct_stage 2 1 \<lparr>matE = [8 / 5, 8 / 5, - (16 / 5)], matY = [3, 3, - 3],
              matR = [1, 2, 0], matB = [0, 0, 0, 0]\<rparr>) \<noteq> None"
proof -
  have le: "(2::nat) \<le> 32767" by simp
  have run: "ranked_point 2 [0, 8 / 5] [1, 1] =
       Some (\<lparr>matE = [8 / 5, 8 / 5, - (16 / 5)], matY = [3, 3, - 3], matR = [1, 2, 0],
              matB = [0, 0, 0, 0]\<rparr>, 1)"
    by code_simp
  from le run rank_permutation_and_index_safety [OF le run] show ?thesis by blast
qed

text \<open>
  The ranks are \<open>int16_t\<close> cells: for the point at the origin of a \<open>32768\<close>-dimensional
  position space the last axis is ranked below all \<open>32768\<close> others and its rank is
  stored as \<open>- 32768\<close>.
\<close>

theorem rank_wraps_counterexample:
  "rank_at 32768 (replicate 32768 0) (scaleFactor_table 32768) 32768 = Some (- 32768)"
proof -
  have "(1::nat) \<le> 32768" by simp
  from rank_at_origin [OF this] show ?thesis
    by (simp add: narrow16_def)
qed

section \<open>C5: \<open>insert\<close> returns within \<open>capacity\<close> probes\<close>

text \<open>
  C5.  Take the table built by the constructor for \<open>N\<close> points, and let fewer than
  \<open>capacity = N * (pd + 1)\<close> calls of \<open>insert\<close> have run on it, in any order and with any
  keys and slot indices (the splat stage issues \<open>N * (pd + 1)\<close> calls in all).  Then the
  next \<open>insert\<close> returns for every key, and it does so having probed at most \<open>capacity\<close>
  buckets: a claimed bucket is never emptied again, so an empty bucket is still there.
\<close>

theorem insert_terminates:
  assumes "insert_all (HashTableGPU pd vd N) qs = Some t" and "length qs < N * (pd + 1)"
  shows "capacity t = N * (pd + 1)
       \<and> (\<exists>r. insert_fuel (capacity t) t key nid (hash (ht_pd t) key mod capacity t) = Some r
              \<and> insert_ht t key nid = Some r)"
proof -
  note frame = insert_all_frame [OF assms(1)]
  from frame have occ: "occupied t \<le> length qs"
    by (simp add: occupied_HashTableGPU)
  from frame have cap: "capacity t = N * (pd + 1)" and len: "length (entry2nid t) = N * (pd + 1)"
    by (simp_all add: HashTableGPU_def)
  have pos: "0 < capacity t"
    unfolding cap by (rule le_less_trans [OF le0 assms(2)])
  from occ assms(2) len have "occupied t < length (entry2nid t)" by simp
  from empty_bucket_exists [OF this] obtain b where b: "b < capacity t" "entry2nid t ! b = - 1"
    using len cap by auto
  have h: "hash (ht_pd t) key mod capacity t < capacity t"
    using pos by simp
  from insert_fuel_total [OF pos h b] obtain r
    where r: "insert_fuel (capacity t) t key nid (hash (ht_pd t) key mod capacity t) = Some r"
    by blast
  then have "insert_ht t key nid = Some r"
    unfolding insert_ht_def using pos insert_fuel_loop [OF r] by simp
  with r cap show ?thesis by blast
qed

theorem insert_terminates_witness:
  "insert_all (HashTableGPU 1 1 1) [([0], 0)] =
     Some \<lparr>ht_pd = 1, ht_vd = 1, ht_N = 1, capacity = 2, keys = [0, 0], vals = [0, 0],
           entry2nid = [0, - 1]\<rparr>
   \<and> length [([0::int], 0::nat)] < 1 * (1 + 1)
   \<and> insert_ht \<lparr>ht_pd = 1, ht_vd = 1, ht_N = 1, capacity = 2, keys = [0, 0], vals = [0, 0],
           entry2nid = [0, - 1]\<rparr> [1] 1 =
     Some (\<lparr>ht_pd = 1, ht_vd = 1, ht_N = 1, capacity = 2, keys = [0, 1], vals = [0, 0],
           entry2nid = [0, 1]\<rparr>, 1)"
proof -
  let ?t = "\<lparr>ht_pd = 1, ht_vd = 1, ht_N = 1, capacity = 2, keys = [0, 0], vals = [0, 0],
           entry2nid = [0, - 1]\<rparr>"
  have "insert_fuel 1 (HashTableGPU 1 1 1) [0] 0 0 = Some (?t, 0)"
    by (simp add: HashTableGPU_def write_key_def)
  then have "insert_loop (HashTableGPU 1 1 1) [0] 0 0 = Some (?t, 0)"
    by (rule insert_fuel_loop)
  then have run: "insert_all (HashTableGPU 1 1 1) [([0], 0)] = Some ?t"
    by (simp add: insert_ht_def hash_def HashTableGPU_def)
  have len: "length [([0::int], 0::nat)] < 1 * (1 + 1)" by simp
  from insert_terminates [OF run len, of "[1]" 1] obtain r
    where fuel: "insert_fuel (capacity ?t) ?t [1] 1 (hash (ht_pd ?t) [1] mod capacity ?t) = Some r"
      and ret: "insert_ht ?t [1] 1 = Some r"
    by blast
  have "hash (ht_pd ?t) [1] mod capacity ?t = 1"
    by (simp add: hash_def)
  with fuel have "r = (\<lparr>ht_pd = 1, ht_vd = 1, ht_N = 1, capacity = 2, keys = [0, 1], vals = [0, 0],
           entry2nid = [0, 1]\<rparr>, 1)"
    by (simp add: numeral_2_eq_2 write_key_def)
  with run len ret show ?thesis by simp
qed

section \<open>C8: what happens to a call that violates the preconditions\<close>

text \<open>
  C8.  The host code compares no sizes.  A call with \<open>pd = 0\<close> or \<open>vd = 0\<close> (as the lattice
  sees them, in \<open>uint16_t\<close>) asks for a managed buffer of zero bytes; when the runtime
  answers such a request with an error, \<open>gpuErrchk\<close> ends the process with \<open>exit\<close> before
  any kernel is launched.  Every other call whose six requests are granted launches
  \<open>splat_kernel\<close>, whatever the number of rows of the positions.
\<close>

theorem precondition_handling:
  assumes "\<not> ok 0"
    and "row_size ref mod 65536 = 0 \<or> row_size src mod 65536 = 0"
    and "list_all (granted ok)
           (malloc_sizes w (row_size ref' mod 65536) (row_size src' mod 65536) (length src'))"
  shows "last (permutohedral_cuda_filter_host ok w src ref) = Exit
       \<and> \<not> list_ex is_launch (permutohedral_cuda_filter_host ok w src ref)
       \<and> last (permutohedral_cuda_filter_host ok w src' ref') =
           Launch_splat ((length src' + 1024 - 1) mod 2 ^ 64 div 1024 mod 2 ^ 32) 1024"
proof -
  let ?zs = "malloc_sizes w (row_size ref mod 65536) (row_size src mod 65536) (length src)"
  have stop: "permutohedral_cuda_filter_host ok w src ref = gpu_mallocs ok ?zs"
    unfolding permutohedral_cuda_filter_host_def Let_def
    using zero_dimension_exits(2) [of ok "row_size ref mod 65536" "row_size src mod 65536" w
        "length src", OF assms(1,2)] by simp
  have "last (gpu_mallocs ok ?zs) = Exit"
    using assms(1,2) by (rule zero_dimension_exits(1))
  moreover have "\<not> list_ex is_launch (gpu_mallocs ok ?zs)"
    by (rule gpu_mallocs_no_launch)
  moreover have "last (permutohedral_cuda_filter_host ok w src' ref') =
      Launch_splat ((length src' + 1024 - 1) mod 2 ^ 64 div 1024 mod 2 ^ 32) 1024"
    unfolding permutohedral_cuda_filter_host_def Let_def
    using granted_launches [OF assms(3)] by simp
  ultimately show ?thesis unfolding stop by simp
qed

theorem precondition_handling_witness:
  "\<not> nonempty_request 0
   \<and> row_size [[]] mod 65536 = 0
   \<and> list_all (granted nonempty_request)
        (malloc_sizes 4 (row_size [[0]] mod 65536) (row_size [[1], [1]] mod 65536)
           (length [[1], [1::real]]))
   \<and> last (permutohedral_cuda_filter_host nonempty_request 4 [[]] [[0]]) = Exit
   \<and> \<not> list_ex is_launch (permutohedral_cuda_filter_host nonempty_request 4 [[]] [[0]])
   \<and> last (permutohedral_cuda_filter_host nonempty_request 4 [[1], [1]] [[0]]) = Launch_splat 1 1024"
proof -
  have a: "\<not> nonempty_request 0" by (simp add: nonempty_request_def)
  have b: "row_size [[0::real]] mod 65536 = 0 \<or> row_size ([[]] :: real list list) mod 65536 = 0"
    by (simp add: row_size_def)
  have c: "list_all (granted nonempty_request)
        (malloc_sizes 4 (row_size [[0]] mod 65536) (row_size [[1], [1]] mod 65536)
           (length [[1], [1::real]]))"
    by (simp add: row_size_def malloc_sizes_def nonempty_request_def Let_def)
  from precondition_handling [OF a b c] a c show ?thesis
    by (simp add: row_size_def)
qed

text \<open>
  Two rows of features and one row of positions: nothing fails, and the kernel is
  launched on one block.
\<close>

theorem mismatched_rows_dispatch:
  "permutohedral_cuda_filter_host nonempty_request 4 [[1], [1]] [[0]] =
     [Malloc 8, Malloc 16, Malloc 16, Malloc 4, Malloc 8, Malloc 64, Launch_splat 1 1024]"
  by (rule mismatched_rows_run)

section \<open>C7: what the slice stage computes\<close>

text \<open>
  C7.  Let the replay entries of every point name buckets whose slots can be read, and
  let the output have a row of at least \<open>vd\<close> channels for each of the \<open>N\<close> points.  Then
  the slice stage returns; the row of output point \<open>n\<close> starts from zero and receives,
  for each corner \<open>r = 0..pd\<close> in turn, \<open>replay[n * (pd + 1) + r].weight\<close> times the
  accumulator slot addressed by \<open>replay[n * (pd + 1) + r].entry\<close>, divided by the
  single-precision value of \<open>1 + 2^-pd\<close>, in every channel \<open>j < vd\<close>, each operation rounded
  to \<open>scalar_t\<close>.  The divisor is \<open>1 + 2^-pd\<close> up to \<open>pd = 23\<close> and \<open>1\<close> from \<open>pd = 24\<close> on.
\<close>

theorem slice_computation:
  assumes "lat_N L = ht_N t" and "ht_N t \<le> length src"
    and "\<And>row. row \<in> set src \<Longrightarrow> ht_vd t \<le> length row"
    and "\<And>n r. n < ht_N t \<Longrightarrow> r \<le> ht_pd t \<Longrightarrow> slot_readable t rp n r"
  shows "\<exists>result. slice rnd L (t, rp) src = Some result \<and> length result = length src
       \<and> (\<forall>n<ht_N t. \<forall>j<ht_vd t. result ! n ! j =
            fold (\<lambda>r acc. rnd (acc +
                rnd (rnd (weight (rp ! (n * (ht_pd t + 1) + r))
                      * vals t ! (nat (entry2nid t ! entry (rp ! (n * (ht_pd t + 1) + r))) * ht_vd t + j))
                     / (if ht_pd t < 24 then 1 + 1 / 2 ^ ht_pd t else 1))))
              [0..<ht_pd t + 1] 0)"
  using slice_rows [OF assms, of rnd] unfolding slice_term_def slice_divisor_def .

text \<open>
  Two points on one lattice vertex, the first with the feature \<open>1\<close> and the second with
  \<open>0\<close>: both rows receive the rounded quotient of \<open>1\<close> by \<open>3/2\<close>.
\<close>

theorem slice_computation_witness:
  "lat_N (PermutohedralLatticeGPU 1 1 2) = 2
   \<and> 2 \<le> length [[1], [0::real]]
   \<and> list_all (\<lambda>row. 1 \<le> length row) [[1], [0::real]]
   \<and> list_all (\<lambda>n. list_all (slot_readable
         \<lparr>ht_pd = 1, ht_vd = 1, ht_N = 2, capacity = 4, keys = [0, 1, 0, 0],
           vals = [1, 0, 0, 0], entry2nid = [0, - 1, - 1, 1]\<rparr>
         [\<lparr>entry = 0, weight = 1\<rparr>, \<lparr>entry = 3, weight = 0\<rparr>,
          \<lparr>entry = 0, weight = 1\<rparr>, \<lparr>entry = 3, weight = 0\<rparr>] n) [0, 1]) [0, 1]
   \<and> (\<exists>result. slice round24 (PermutohedralLatticeGPU 1 1 2)
        (\<lparr>ht_pd = 1, ht_vd = 1, ht_N = 2, capacity = 4, keys = [0, 1, 0, 0],
           vals = [1, 0, 0, 0], entry2nid = [0, - 1, - 1, 1]\<rparr>,
         [\<lparr>entry = 0, weight = 1\<rparr>, \<lparr>entry = 3, weight = 0\<rparr>,
          \<lparr>entry = 0, weight = 1\<rparr>, \<lparr>entry = 3, weight = 0\<rparr>])
        [[1], [0]] = Some result
     \<and> length result = 2
     \<and> result ! 0 ! 0 = 11184811 / 16777216 \<and> result ! 1 ! 0 = 11184811 / 16777216)"
proof -
  let ?t = "\<lparr>ht_pd = 1, ht_vd = 1, ht_N = 2, capacity = 4, keys = [0, 1, 0, 0],
           vals = [1, 0, 0, 0], entry2nid = [0, - 1, - 1, 1]\<rparr>"
  let ?rp = "[\<lparr>entry = 0, weight = 1\<rparr>, \<lparr>entry = 3, weight = 0\<rparr>,
          \<lparr>entry = 0, weight = 1\<rparr>, \<lparr>entry = 3, weight = 0\<rparr>]"
  have N: "lat_N (PermutohedralLatticeGPU 1 1 2) = ht_N ?t"
    by (simp add: PermutohedralLatticeGPU_def)
  have all: "list_all (\<lambda>n. list_all (slot_readable ?t ?rp n) [0, 1]) [0, 1]"
    by (simp add: slot_readable_def)
  have ready: "slot_readable ?t ?rp n r" if "n < ht_N ?t" "r \<le> ht_pd ?t" for n r
  proof -
    from that have "n = 0 \<or> n = 1" "r = 0 \<or> r = 1" by auto
    with all show ?thesis by auto
  qed
  have "\<exists>result. slice round24 (PermutohedralLatticeGPU 1 1 2) (?t, ?rp) [[1], [0]] = Some result
       \<and> length result = length [[1], [0::real]]
       \<and> (\<forall>n<ht_N ?t. \<forall>j<ht_vd ?t. result ! n ! j =
            fold (\<lambda>r acc. round24 (acc +
                round24 (round24 (weight (?rp ! (n * (ht_pd ?t + 1) + r))
                      * vals ?t ! (nat (entry2nid ?t ! entry (?rp ! (n * (ht_pd ?t + 1) + r))) * ht_vd ?t + j))
                     / (if ht_pd ?t < 24 then 1 + 1 / 2 ^ ht_pd ?t else 1))))
              [0..<ht_pd ?t + 1] 0)"
    by (rule slice_computation [OF N _ _ ready]) auto
  then obtain result
    where run: "slice round24 (PermutohedralLatticeGPU 1 1 2) (?t, ?rp) [[1], [0]] = Some result"
      and len: "length result = 2"
      and val: "\<And>n j. n < 2 \<Longrightarrow> j < 1 \<Longrightarrow> result ! n ! j =
            fold (\<lambda>r acc. round24 (acc +
                round24 (round24 (weight (?rp ! (n * (ht_pd ?t + 1) + r))
                      * vals ?t ! (nat (entry2nid ?t ! entry (?rp ! (n * (ht_pd ?t + 1) + r))) * ht_vd ?t + j))
                     / (if ht_pd ?t < 24 then 1 + 1 / 2 ^ ht_pd ?t else 1))))
              [0..<ht_pd ?t + 1] 0"
    by auto
  have "fold (\<lambda>r acc. round24 (acc +
                round24 (round24 (weight (?rp ! (n * (ht_pd ?t + 1) + r))
                      * vals ?t ! (nat (entry2nid ?t ! entry (?rp ! (n * (ht_pd ?t + 1) + r))) * ht_vd ?t + 0))
                     / (if ht_pd ?t < 24 then 1 + 1 / 2 ^ ht_pd ?t else 1))))
              [0..<ht_pd ?t + 1] 0 = 11184811 / 16777216" if "n = 0 \<or> n = 1" for n
    using that by (auto simp: round24_two_thirds round24_grid)
  from this [of 0] this [of 1] val [of 0 0] val [of 1 0]
  have "result ! 0 ! 0 = 11184811 / 16777216" "result ! 1 ! 0 = 11184811 / 16777216"
    by simp_all
  then have "\<exists>result. slice round24 (PermutohedralLatticeGPU 1 1 2) (?t, ?rp) [[1], [0]] = Some result
     \<and> length result = 2
     \<and> result ! 0 ! 0 = 11184811 / 16777216 \<and> result ! 1 ! 0 = 11184811 / 16777216"
    using run len by blast
  moreover have "lat_N (PermutohedralLatticeGPU 1 1 2) = 2"
    by (simp add: PermutohedralLatticeGPU_def)
  ultimately show ?thesis using all by simp
qed

text \<open>
  With \<open>pd = 24\<close> the divisor is \<open>1\<close>: a point whose first corner has the weight \<open>1\<close> and
  reads a slot holding \<open>1\<close> gets the output \<open>1\<close>, where the quotient by \<open>1 + 2^-24\<close>, also
  when rounded, is smaller.
\<close>

theorem slice_divisor_counterexample:
  "slice round24 (PermutohedralLatticeGPU 24 1 1)
      (\<lparr>ht_pd = 24, ht_vd = 1, ht_N = 1, capacity = 25, keys = replicate 600 0,
         vals = 1 # replicate 24 0, entry2nid = 0 # replicate 24 (- 1)\<rparr>,
       \<lparr>entry = 0, weight = 1\<rparr> # replicate 24 \<lparr>entry = 0, weight = 0\<rparr>)
      [[0]] = Some [[1]]
   \<and> round24 (round24 (1 * 1) / (1 + 1 / 2 ^ 24)) = 16777215 / 16777216"
  using slice_wide_run round24_below_one by simp

section \<open>C2: one point at the origin of the line lattice\<close>

text \<open>
  C2.  With \<open>pd = 1\<close> and \<open>vd = 1\<close> and the single point at position \<open>0\<close> with the feature
  value \<open>1\<close>, the splat kernel gives the point the weights \<open>1\<close> and \<open>0\<close> and accumulates \<open>1\<close>
  in the slot of its vertex, and the slice kernel, run on that table and replay buffer,
  returns the quotient of \<open>1\<close> by \<open>1 + 2^-1\<close> rounded to \<open>scalar_t\<close>.  Any rounding that keeps
  \<open>0\<close> and \<open>1\<close> and its own results will do; the quotient is \<open>2/3\<close> before it is rounded.
\<close>

theorem scenario_B_output:
  assumes "rnd 0 = 0" and "rnd 1 = 1" and "\<And>x. rnd (rnd x) = rnd x"
  shows "splat_launch (PermutohedralLatticeGPU 1 1 1) [[1]] [[0]] =
       Some (\<lparr>ht_pd = 1, ht_vd = 1, ht_N = 1, capacity = 2, keys = [0, 1], vals = [1, 0],
               entry2nid = [0, 1]\<rparr>,
             [\<lparr>entry = 0, weight = 1\<rparr>, \<lparr>entry = 1, weight = 0\<rparr>])
     \<and> slice rnd (PermutohedralLatticeGPU 1 1 1)
         (\<lparr>ht_pd = 1, ht_vd = 1, ht_N = 1, capacity = 2, keys = [0, 1], vals = [1, 0],
            entry2nid = [0, 1]\<rparr>,
          [\<lparr>entry = 0, weight = 1\<rparr>, \<lparr>entry = 1, weight = 0\<rparr>])
         [[1]] = Some [[rnd (2 / 3)]]"
  using single_point_splat_launch [of 1] single_point_slice [OF assms] by simp

text \<open>In single precision the quotient is \<open>11184811 / 2^24\<close>, about \<open>0.66666669\<close>.\<close>

theorem scenario_B_output_witness:
  "round24 0 = 0 \<and> round24 1 = 1 \<and> round24 (round24 (2 / 3)) = round24 (2 / 3)
   \<and> splat_launch (PermutohedralLatticeGPU 1 1 1) [[1]] [[0]] =
       Some (\<lparr>ht_pd = 1, ht_vd = 1, ht_N = 1, capacity = 2, keys = [0, 1], vals = [1, 0],
               entry2nid = [0, 1]\<rparr>,
             [\<lparr>entry = 0, weight = 1\<rparr>, \<lparr>entry = 1, weight = 0\<rparr>])
   \<and> slice round24 (PermutohedralLatticeGPU 1 1 1)
         (\<lparr>ht_pd = 1, ht_vd = 1, ht_N = 1, capacity = 2, keys = [0, 1], vals = [1, 0],
            entry2nid = [0, 1]\<rparr>,
          [\<lparr>entry = 0, weight = 1\<rparr>, \<lparr>entry = 1, weight = 0\<rparr>])
         [[1]] = Some [[11184811 / 16777216]]"
  using scenario_B_output [of round24, OF round24_0 round24_1 round24_idem]
  by (simp add: round24_two_thirds round24_grid)

text \<open>
  The feature \<open>1\<close> is not what comes out: not of the slice kernel on the table of the
  splat kernel, and not of \<open>filter\<close>, whose slice stage reads the table after its arrays
  were freed.
\<close>

theorem scenario_B_not_one:
  "slice round24 (PermutohedralLatticeGPU 1 1 1)
      (\<lparr>ht_pd = 1, ht_vd = 1, ht_N = 1, capacity = 2, keys = [0, 1], vals = [1, 0],
         entry2nid = [0, 1]\<rparr>,
       [\<lparr>entry = 0, weight = 1\<rparr>, \<lparr>entry = 1, weight = 0\<rparr>])
      [[1]] \<noteq> Some [[1]]
   \<and> permutohedral_cuda_filter round24 [[1]] [[0]] \<noteq> Some [[1]]"
  using single_point_slice [of round24, OF round24_0 round24_1 round24_idem]
    single_point_filter [of round24 1]
  by (simp add: round24_two_thirds)

section \<open>C6: what \<open>filter\<close> returns\<close>

text \<open>
  C6.  The repository holds two \<open>filter\<close> functions.  Take one point at position \<open>0\<close> with
  the feature value \<open>0\<close> (\<open>N = 1\<close>, \<open>pd = 1\<close>, \<open>vd = 1\<close>).  The \<open>filter\<close> of
  \<open>permutohedral_cuda_kernel.cu\<close> runs the splat kernel, which leaves a table of two
  slots holding \<open>0\<close>; it has no slice stage: after the launch it reads the counter of the
  table, which the launch statement has freed, and its return statement yields
  \<open>ones_like\<close> of the features, the row \<open>[1]\<close>.  The slice stage of the other \<open>filter\<close>, run
  on the table of its splat kernel, recombines the lattice contributions into the row
  \<open>[0]\<close>.
\<close>

theorem filter_returns_placeholder:
  "splat_launch_cu (PermutohedralLatticeGPU_cu 1 1 1) [[0]] [[0]] =
     Some \<lparr>cu_pd = 1, cu_vd = 1, cu_N = 1, cu_capacity = 2, cu_keys = [0, 1], cu_values = [0, 0],
       filled = [2], entryIdx = [0, 1], slotLock = [0]\<rparr>
   \<and> permutohedral_cuda_filter_cu [[0]] [[0]] = None
   \<and> ones_like [[0]] = [[1]]
   \<and> splat_launch (PermutohedralLatticeGPU 1 1 1) [[0]] [[0]] =
       Some (\<lparr>ht_pd = 1, ht_vd = 1, ht_N = 1, capacity = 2, keys = [0, 1], vals = [0, 0],
               entry2nid = [0, 1]\<rparr>,
             [\<lparr>entry = 0, weight = 1\<rparr>, \<lparr>entry = 1, weight = 0\<rparr>])
   \<and> slice round24 (PermutohedralLatticeGPU 1 1 1)
       (\<lparr>ht_pd = 1, ht_vd = 1, ht_N = 1, capacity = 2, keys = [0, 1], vals = [0, 0],
          entry2nid = [0, 1]\<rparr>,
        [\<lparr>entry = 0, weight = 1\<rparr>, \<lparr>entry = 1, weight = 0\<rparr>])
       [[0]] = Some [[0]]"
  using single_point_splat_launch_cu [of 0] single_point_run_cu [of 0]
    single_point_splat_launch [of 0] single_point_slice_zero
  by (simp add: ones_like_def)

section \<open>C4: where the contribution of a (point, corner) instance goes\<close>

text \<open>
  C4.  Two points, at the positions \<open>0\<close> and \<open>-1/4\<close> with the feature values \<open>0\<close> and \<open>4\<close>
  (\<open>N = 2\<close>, \<open>pd = 1\<close>, \<open>vd = 1\<close>).  The second corner of the second point is the instance
  with \<open>n * (pd + 1) + r = 3\<close>; its key \<open>[-1]\<close> is new.  In the splat kernel of
  \<open>permutohedral_cuda_kernel.cu\<close> the instance calls \<open>lookup\<close>, which takes the next value
  of the shared counter \<open>filled\<close>, the slot \<open>2\<close>: the bucket holds \<open>2\<close>, the key and the
  contribution are in slot \<open>2\<close>, and the counter ends at \<open>3\<close>.  In the splat kernel that
  calls \<open>insert\<close> with the slot index, the bucket holds \<open>3\<close> and the key and the
  contribution are in slot \<open>3\<close>.
\<close>

theorem slots_from_shared_counter:
  "splat_launch_cu (PermutohedralLatticeGPU_cu 1 1 2) [[0], [4]] [[0], [- (1 / 4)]] =
     Some \<lparr>cu_pd = 1, cu_vd = 1, cu_N = 2, cu_capacity = 4, cu_keys = [0, 1, - 1, 0],
       cu_values = [4 - 2 * sqrt (2 / 3) / sqrt 2, 0, 2 * sqrt (2 / 3) / sqrt 2, 0],
       filled = [3], entryIdx = [0, 2, - 1, 1], slotLock = [0]\<rparr>
   \<and> splat_launch (PermutohedralLatticeGPU 1 1 2) [[0], [4]] [[0], [- (1 / 4)]] =
     Some (\<lparr>ht_pd = 1, ht_vd = 1, ht_N = 2, capacity = 4, keys = [0, 1, 0, - 1],
         vals = [4 - 2 * sqrt (2 / 3) / sqrt 2, 0, 0, 2 * sqrt (2 / 3) / sqrt 2],
         entry2nid = [0, 3, - 1, 1]\<rparr>,
       [\<lparr>entry = 0, weight = 1\<rparr>, \<lparr>entry = 3, weight = 0\<rparr>,
        \<lparr>entry = 0, weight = 1 - 2 * sqrt (2 / 3) / sqrt 2 / 4\<rparr>,
        \<lparr>entry = 1, weight = 2 * sqrt (2 / 3) / sqrt 2 / 4\<rparr>])"
  using two_points_launch_cu two_points_launch by simp

end
